theory Spec2Isabelle
  imports Main "HOL-Library.Multiset"
begin

section \<open>The mock target application (mock-o9-website/js/app.js)\<close>

text \<open>
  The script reads and writes three pieces of browser state: \<open>sessionStorage\<close>, a
  string-keyed store of strings in which \<open>getItem\<close> of a missing key is \<open>null\<close>; the
  elements of the document, found by id (\<open>getElementById\<close> is \<open>null\<close> for an unknown
  id); and \<open>window.location\<close>, whose \<open>pathname\<close> is read and whose \<open>href\<close> is
  assigned to leave the page.  An element carries the three properties the script touches.
\<close>

record element =
  el_value :: string
  style_display :: string
  textContent :: string

record page =
  sessionStorage :: "string \<rightharpoonup> string"
  document :: "string \<rightharpoonup> element"
  pathname :: string
  href_assigned :: "string option"
  default_prevented :: bool

datatype js_error = TypeError | SyntaxError

text \<open>A JavaScript string is truthy exactly when it is not empty; \<open>null\<close> is falsy.\<close>

definition truthy :: "string \<Rightarrow> bool" where
  "truthy s = (s \<noteq> [])"

definition truthy_opt :: "string option \<Rightarrow> bool" where
  "truthy_opt v = (case v of None \<Rightarrow> False | Some s \<Rightarrow> truthy s)"

definition getItem :: "page \<Rightarrow> string \<Rightarrow> string option" where
  "getItem pg k = sessionStorage pg k"

definition setItem :: "string \<Rightarrow> string \<Rightarrow> page \<Rightarrow> page" where
  "setItem k v pg = pg\<lparr>sessionStorage := (sessionStorage pg)(k \<mapsto> v)\<rparr>"

definition removeItem :: "string \<Rightarrow> page \<Rightarrow> page" where
  "removeItem k pg = pg\<lparr>sessionStorage := (sessionStorage pg)(k := None)\<rparr>"

definition getElementById :: "page \<Rightarrow> string \<Rightarrow> element option" where
  "getElementById pg i = document pg i"

definition set_href :: "string \<Rightarrow> page \<Rightarrow> page" where
  "set_href url pg = pg\<lparr>href_assigned := Some url\<rparr>"

text \<open>\<open>String.prototype.startsWith\<close> and \<open>String.prototype.includes\<close>: a substring test.\<close>

fun startsWith :: "string \<Rightarrow> string \<Rightarrow> bool" where
  "startsWith s [] = True"
| "startsWith [] (c # cs) = False"
| "startsWith (d # ds) (c # cs) = (d = c \<and> startsWith ds cs)"

fun includes_str :: "string \<Rightarrow> string \<Rightarrow> bool" where
  "includes_str [] t = (t = [])"
| "includes_str (c # cs) t = (startsWith (c # cs) t \<or> includes_str cs t)"

text \<open>
  \<open>handleLogin(event)\<close>.  The two \<open>.value\<close> reads come first and throw a TypeError when
  the element is missing; nothing but \<open>event.preventDefault()\<close> has happened by then.
  The result pairs what the call returns (or throws) with the browser state it leaves.
\<close>

definition handleLogin :: "page \<Rightarrow> (js_error + bool) \<times> page" where
  "handleLogin pg0 =
     (let pg = pg0\<lparr>default_prevented := True\<rparr> in
      case getElementById pg ''username'' of
        None \<Rightarrow> (Inl TypeError, pg)
      | Some ue \<Rightarrow>
         (case getElementById pg ''password'' of
            None \<Rightarrow> (Inl TypeError, pg)
          | Some pe \<Rightarrow>
             (let username = el_value ue; password = el_value pe in
              if truthy username \<and> truthy password then
                (Inr False,
                 set_href ''dashboard.html''
                   (setItem ''o9-logged-in'' ''true'' (setItem ''o9-username'' username pg)))
              else
                (case getElementById pg ''error-message'' of
                   None \<Rightarrow> (Inl TypeError, pg)
                 | Some em \<Rightarrow>
                    (Inr False,
                     pg\<lparr>document := (document pg)(''error-message'' \<mapsto>
                                         em\<lparr>style_display := ''block''\<rparr>)\<rparr>)))))"

definition handleLogout :: "page \<Rightarrow> page" where
  "handleLogout pg =
     set_href ''index.html'' (removeItem ''o9-logged-in'' (removeItem ''o9-username'' pg))"

text \<open>\<open>checkAuth()\<close>, run by the \<open>DOMContentLoaded\<close> listener of every page.\<close>

definition checkAuth :: "page \<Rightarrow> page" where
  "checkAuth pg0 =
     (let isLoggedIn = getItem pg0 ''o9-logged-in'';
          currentPage = pathname pg0;
          pg = (if \<not> truthy_opt isLoggedIn \<and> \<not> includes_str currentPage ''index.html''
                   \<and> currentPage \<noteq> ''/''
                then set_href ''index.html'' pg0 else pg0);
          username = getItem pg ''o9-username'';
          usernameDisplay = getElementById pg ''username-display''
      in case usernameDisplay of
           None \<Rightarrow> pg
         | Some ud \<Rightarrow>
            (case username of
               None \<Rightarrow> pg
             | Some u \<Rightarrow>
                (if truthy u
                 then pg\<lparr>document := (document pg)(''username-display'' \<mapsto>
                                          ud\<lparr>textContent := u\<rparr>)\<rparr>
                 else pg)))"


text \<open>
  Pages used to exercise the model: the login page with what the user typed into its two
  fields, and a protected page of the site as a fresh tab opens it.
\<close>

definition login_page :: "string \<Rightarrow> string \<Rightarrow> page" where
  "login_page u p =
     \<lparr>sessionStorage = Map.empty,
      document =
        [''username'' \<mapsto> \<lparr>el_value = u, style_display = '''', textContent = ''''\<rparr>,
         ''password'' \<mapsto> \<lparr>el_value = p, style_display = '''', textContent = ''''\<rparr>,
         ''error-message'' \<mapsto>
            \<lparr>el_value = '''', style_display = ''none'', textContent = ''Invalid credentials''\<rparr>],
      pathname = ''/index.html'', href_assigned = None, default_prevented = False\<rparr>"


section \<open>The test-case page (TestCaseDetail and TestCaseExecutor)\<close>

text \<open>
  A step as the API returns it.  Ids and ordinals are integers of the store, far below
  the range where JavaScript numbers stop being exact, so \<open>a.step_number - b.step_number\<close>
  is integer subtraction.  A field the response leaves out (or gives as \<open>null\<close>) is
  \<open>None\<close>.
\<close>

record step =
  step_id :: nat
  step_number :: int
  description :: "string option"
  expected_result :: "string option"
  selenium_script :: "string option"
  selenium_script_json :: "string option"
  execution_status :: "string option"
  error_message :: "string option"

record testCase =
  tc_id :: nat
  tc_name :: string
  tc_status :: string
  steps :: "step list option"

text \<open>
  \<open>Array.prototype.sort(comparefn)\<close>.  The language fixes the result for a consistent
  comparator: the elements in ascending order of \<open>comparefn\<close>, elements that compare equal
  in the order they had (the sort is stable).  Inserting from the right, each element in
  front of the first one it does not follow, computes exactly that list.
\<close>

fun insert_by :: "('a \<Rightarrow> 'a \<Rightarrow> int) \<Rightarrow> 'a \<Rightarrow> 'a list \<Rightarrow> 'a list" where
  "insert_by comparefn x [] = [x]"
| "insert_by comparefn x (y # ys) =
     (if comparefn x y \<le> 0 then x # y # ys else y # insert_by comparefn x ys)"

definition array_sort :: "('a \<Rightarrow> 'a \<Rightarrow> int) \<Rightarrow> 'a list \<Rightarrow> 'a list" where
  "array_sort comparefn xs = foldr (insert_by comparefn) xs []"

definition by_step_number :: "step \<Rightarrow> step \<Rightarrow> int" where
  "by_step_number a b = step_number a - step_number b"

text \<open>
  \<open>testCase.steps || []\<close>: the list as storage returned it, empty when the field is missing.
\<close>

definition stored_steps :: "testCase \<Rightarrow> step list" where
  "stored_steps tc = (case steps tc of None \<Rightarrow> [] | Some xs \<Rightarrow> xs)"

text \<open>\<open>[...(testCase.steps || [])].sort((a, b) => a.step_number - b.step_number)\<close>\<close>

definition sortedSteps :: "testCase \<Rightarrow> step list" where
  "sortedSteps tc = array_sort by_step_number (stored_steps tc)"

text \<open>
  \<open>TestCaseExecutor\<close> maps the steps it is given to one \<open>TestStepExecutor\<close> each, keyed
  by the step's id, in the order of the list; \<open>TestCaseDetail\<close> hands it \<open>sortedSteps\<close>
  when there is at least one step and shows a placeholder otherwise.
\<close>

definition TestCaseExecutor :: "step list \<Rightarrow> (nat \<times> step) list" where
  "TestCaseExecutor sts = map (\<lambda>st. (step_id st, st)) sts"

definition execution_section :: "testCase \<Rightarrow> (nat \<times> step) list option" where
  "execution_section tc =
     (if length (sortedSteps tc) > 0 then Some (TestCaseExecutor (sortedSteps tc)) else None)"

subsection \<open>Status styles\<close>

text \<open>
  Both style functions look a status up in an object literal and fall back with \<open>||\<close>.
  A property read on an object literal finds the literal's own keys first and then the
  members every object inherits from \<open>Object.prototype\<close>, all of them functions or
  objects and therefore truthy; anything else reads as \<open>undefined\<close>.  The value a style
  function returns is therefore a class string or, for an inherited name, that member.
\<close>

datatype style_value = ClassName string | PrototypeMember string

definition Object_prototype_keys :: "string list" where
  "Object_prototype_keys =
     [''constructor'', ''hasOwnProperty'', ''isPrototypeOf'', ''propertyIsEnumerable'',
      ''toLocaleString'', ''toString'', ''valueOf'', ''__proto__'',
      ''__defineGetter__'', ''__defineSetter__'', ''__lookupGetter__'', ''__lookupSetter__'']"

definition lookup_or :: "(string \<times> string) list \<Rightarrow> string \<Rightarrow> string \<Rightarrow> style_value" where
  "lookup_or colors k dflt =
     (case map_of colors k of
        Some v \<Rightarrow> (if truthy v then ClassName v else ClassName dflt)
      | None \<Rightarrow> (if k \<in> set Object_prototype_keys then PrototypeMember k
                 else ClassName dflt))"






definition getStatusBadgeColor_colors :: "(string \<times> string) list" where
  "getStatusBadgeColor_colors =
     [(''draft'', ''bg-gray-100 text-gray-800''),
      (''approved'', ''bg-green-100 text-green-800''),
      (''in_progress'', ''bg-blue-100 text-blue-800''),
      (''completed'', ''bg-purple-100 text-purple-800''),
      (''failed'', ''bg-red-100 text-red-800'')]"

definition getStatusBadgeColor :: "string option \<Rightarrow> style_value" where
  "getStatusBadgeColor status =
     lookup_or getStatusBadgeColor_colors
       (case status of None \<Rightarrow> ''undefined'' | Some s \<Rightarrow> s) ''bg-gray-100 text-gray-800''"

text \<open>Steps used to exercise the model.\<close>

definition mk_step :: "nat \<Rightarrow> int \<Rightarrow> string option \<Rightarrow> step" where
  "mk_step i n st =
     \<lparr>step_id = i, step_number = n, description = None, expected_result = None,
      selenium_script = None, selenium_script_json = None, execution_status = st,
      error_message = None\<rparr>"

definition mk_case :: "step list \<Rightarrow> testCase" where
  "mk_case sts = \<lparr>tc_id = 1, tc_name = ''case'', tc_status = ''draft'', steps = Some sts\<rparr>"

section \<open>The step executor (TestStepExecutor)\<close>

text \<open>
  The component's state, as far as running a step touches it, together with what the run
  does to the outside: the WebSocket it opens (its URL, the messages sent on it, whether
  \<open>close()\<close> has been called), the calls of the parent's \<open>onStatusUpdate\<close> with their
  argument, and the \<open>alert\<close> boxes shown.
\<close>

record location =
  protocol :: string
  host :: string

record websocket =
  ws_url :: string
  ws_sent :: "string list"
  close_called :: bool

record executor =
  isRunning :: bool
  screenshot :: "string option"
  progress :: string
  isEditing :: bool
  wsRef :: "websocket option"
  onStatusUpdate_calls :: "string option list"
  alerts :: "string list"

text \<open>
  A message of the execution channel after \<open>JSON.parse\<close>, with the six fields the handler
  reads.  The wire format gives each of them as a string; a field the message does not
  have reads as \<open>undefined\<close>, here \<open>None\<close>.  What arrives need not be such an object:
  text that is not JSON makes \<open>JSON.parse\<close> throw, the JSON text \<open>null\<close> makes the first
  property read throw, and any other value that is not an object has no \<open>type\<close>.
\<close>

record ws_message =
  m_type :: "string option"
  m_status :: "string option"
  m_message :: "string option"
  m_action :: "string option"
  m_image :: "string option"
  m_error :: "string option"

datatype frame = NotJson | JsonNull | NotAnObject | Object ws_message

datatype ws_event = WsOpen | WsMessage frame | WsError | WsClose

text \<open>A number in a template literal: its decimal digits.\<close>

definition digit_of :: "nat \<Rightarrow> char" where
  "digit_of d = char_of (48 + d)"

fun string_of_nat :: "nat \<Rightarrow> string" where
  "string_of_nat n =
     (if n < 10 then [digit_of n] else string_of_nat (n div 10) @ [digit_of (n mod 10)])"

declare string_of_nat.simps [simp del]

text \<open>\<open>String.prototype.replace\<close> with a string pattern: the first occurrence only.\<close>

fun replace_first :: "string \<Rightarrow> string \<Rightarrow> string \<Rightarrow> string" where
  "replace_first [] pat rep = (if pat = [] then rep else [])"
| "replace_first (c # cs) pat rep =
     (if startsWith (c # cs) pat then rep @ drop (length pat) (c # cs)
      else c # replace_first cs pat rep)"

text \<open>
  \<open>a || b\<close> on values that are strings or \<open>undefined\<close>, with \<open>b\<close> possibly
  \<open>undefined\<close> too or a string for certain, and a value in a template literal.
\<close>

definition js_or :: "string option \<Rightarrow> string option \<Rightarrow> string option" where
  "js_or a b = (if truthy_opt a then a else b)"

definition js_or_str :: "string option \<Rightarrow> string \<Rightarrow> string" where
  "js_or_str a b = (case a of None \<Rightarrow> b | Some x \<Rightarrow> (if truthy x then x else b))"

definition template_str :: "string option \<Rightarrow> string" where
  "template_str v = (case v of None \<Rightarrow> ''undefined'' | Some s \<Rightarrow> s)"

text \<open>The URL \<open>handleRunStep\<close> builds, and the handler itself.\<close>

definition wsUrl :: "location \<Rightarrow> step \<Rightarrow> string" where
  "wsUrl loc st =
     (if protocol loc = ''https:'' then ''wss:'' else ''ws:'') @ ''//'' @
     replace_first (host loc) '':5173'' '':8000'' @ ''/ws/execute-step/'' @
     string_of_nat (step_id st)"

definition handleRunStep :: "location \<Rightarrow> step \<Rightarrow> executor \<Rightarrow> executor" where
  "handleRunStep loc st s =
     s\<lparr>isRunning := True, screenshot := None, progress := '''',
       wsRef := Some \<lparr>ws_url = wsUrl loc st, ws_sent = [], close_called = False\<rparr>\<rparr>"

text \<open>
  The Run Step button is part of the component only outside edit mode and only when
  \<open>step.selenium_script_json\<close> is truthy; it is disabled while a run is going on.  A click
  runs \<open>handleRunStep\<close> when the button is there and enabled, and does nothing otherwise.
\<close>

definition run_button_shown :: "step \<Rightarrow> executor \<Rightarrow> bool" where
  "run_button_shown st s = (\<not> isEditing s \<and> truthy_opt (selenium_script_json st))"

definition click_run_step :: "location \<Rightarrow> step \<Rightarrow> executor \<Rightarrow> executor" where
  "click_run_step loc st s =
     (if run_button_shown st s \<and> \<not> isRunning s then handleRunStep loc st s else s)"

definition websocket_close :: "executor \<Rightarrow> executor" where
  "websocket_close s =
     s\<lparr>wsRef := (case wsRef s of None \<Rightarrow> None
                   | Some w \<Rightarrow> Some (w\<lparr>close_called := True\<rparr>))\<rparr>"

text \<open>
  \<open>websocket.onmessage\<close>.  An exception leaves the handler before it has changed
  anything; it is returned as the left value.
\<close>

definition onmessage :: "frame \<Rightarrow> executor \<Rightarrow> js_error + executor" where
  "onmessage f s =
     (case f of
        NotJson \<Rightarrow> Inl SyntaxError
      | JsonNull \<Rightarrow> Inl TypeError
      | NotAnObject \<Rightarrow> Inr s
      | Object d \<Rightarrow>
          Inr (if m_type d = Some ''status_update'' then
                 s\<lparr>onStatusUpdate_calls := onStatusUpdate_calls s @ [m_status d]\<rparr>
               else if m_type d = Some ''progress'' then
                 s\<lparr>progress := js_or_str (js_or (m_message d) (m_action d)) ''''\<rparr>
               else if m_type d = Some ''screenshot'' then
                 s\<lparr>screenshot :=
                       Some (''data:image/png;base64,'' @ template_str (m_image d))\<rparr>
               else if m_type d = Some ''execution_complete'' then
                 websocket_close
                   (s\<lparr>isRunning := False, progress := '''',
                      onStatusUpdate_calls := onStatusUpdate_calls s @ [m_status d]\<rparr>)
               else if m_type d = Some ''execution_error'' then
                 websocket_close
                   (s\<lparr>isRunning := False, progress := '''',
                      alerts := alerts s @ [''Execution error: '' @ template_str (m_error d)]\<rparr>)
               else s))"

definition onerror :: "executor \<Rightarrow> executor" where
  "onerror s = s\<lparr>isRunning := False, progress := ''''\<rparr>"

definition onclose :: "executor \<Rightarrow> executor" where
  "onclose s = s\<lparr>isRunning := False\<rparr>"

text \<open>
  The browser's side of the socket: a message event is fired only while the socket is
  open, so nothing reaches \<open>onmessage\<close> once \<open>close()\<close> has been called; an exception
  thrown by a handler is reported and the state stays as the handler left it, which is
  unchanged here.
\<close>

definition socket_open :: "executor \<Rightarrow> bool" where
  "socket_open s = (case wsRef s of None \<Rightarrow> False | Some w \<Rightarrow> \<not> close_called w)"

definition fire :: "ws_event \<Rightarrow> executor \<Rightarrow> executor" where
  "fire e s =
     (case e of
        WsOpen \<Rightarrow> s
      | WsMessage f \<Rightarrow>
          (if socket_open s
           then (case onmessage f s of Inl err \<Rightarrow> s | Inr s' \<Rightarrow> s')
           else s)
      | WsError \<Rightarrow> onerror s
      | WsClose \<Rightarrow> onclose s)"

definition receive :: "frame list \<Rightarrow> executor \<Rightarrow> executor" where
  "receive fs s = fold (\<lambda>f. fire (WsMessage f)) fs s"

definition is_terminal :: "frame \<Rightarrow> bool" where
  "is_terminal f =
     (case f of Object d \<Rightarrow> m_type d = Some ''execution_complete'' \<or>
                              m_type d = Some ''execution_error''
              | _ \<Rightarrow> False)"

text \<open>Values used to exercise the model.\<close>

definition idle_executor :: executor where
  "idle_executor =
     \<lparr>isRunning = False, screenshot = None, progress = '''', isEditing = False,
      wsRef = None, onStatusUpdate_calls = [], alerts = []\<rparr>"

definition dev_location :: location where
  "dev_location = \<lparr>protocol = ''http:'', host = ''localhost:5173''\<rparr>"

definition runnable_step :: "nat \<Rightarrow> step" where
  \<open>runnable_step i =
     \<lparr>step_id = i, step_number = int i, description = Some ''Open the forecast page'',
      expected_result = None,
      selenium_script = Some ''driver.get(url)'',
      selenium_script_json = Some ''[{"action": "navigate"}]'',
      execution_status = None, error_message = None\<rparr>\<close>

definition msg :: "string \<Rightarrow> ws_message" where
  "msg t = \<lparr>m_type = Some t, m_status = None, m_message = None, m_action = None,
            m_image = None, m_error = None\<rparr>"




section \<open>The execution session of the server\<close>

text \<open>
  The client above talks to the server's execution module (\<open>handle_execute_step\<close> in
  \<open>app/websocket/test_execution.py\<close>, with the command validator and the driver adapter
  behind it).  That module is not among the sources, so this section writes it down from
  the specification, sections 3, 4.1 to 4.3, 6 and 7, as functions that can be run.
\<close>

text \<open>
  Modelled from the spec: the action tags of a command descriptor (section 3:
  "navigate, click, type, wait, assert, screenshot"); the server's own table of tags is
  missing.
\<close>

datatype action_tag = Navigate | Click | TypeText | Wait | Assert | Screenshot

text \<open>
  Modelled from the spec: recognition of an action tag from its stored name (section 4.1:
  "each record must contain a recognized action tag"); the validator is missing.
\<close>

definition recognize :: "string \<Rightarrow> action_tag option" where
  "recognize a =
     map_of [(''navigate'', Navigate), (''click'', Click), (''type'', TypeText),
             (''wait'', Wait), (''assert'', Assert), (''screenshot'', Screenshot)] a"

text \<open>
  Modelled from the spec: a command descriptor (section 3: an action tag, a target
  locator, an optional input value, an optional description); the server's command type
  is missing.
\<close>

record command =
  action :: action_tag
  target :: "string option"
  input_value :: "string option"
  cmd_description :: "string option"

text \<open>
  Modelled from the spec: what a stored payload deserializes to (section 4.1: "an ordered
  sequence of flat records"; rejected are text that cannot be parsed, a value that is not
  a sequence, an element that is not a flat record); the validator is missing.
\<close>

datatype raw_element = FlatRecord "(string \<times> string) list" | NotFlat

datatype raw_payload = Sequence "raw_element list" | NotSequence

text \<open>
  Modelled from the spec: the two procedures the validator applies to the raw text,
  taken as parameters since the spec names them without fixing them: the deserializer,
  and the scan for source-code indicators (section 4.1: "import statements,
  function/class definitions, indentation-based block syntax"); both are missing.
\<close>

record policy =
  deserialize :: "string \<Rightarrow> raw_payload option"
  code_indicator :: "string \<Rightarrow> bool"

text \<open>
  Modelled from the spec: the error taxonomy of section 7, as far as a step run can end
  in it; the server's exception types are missing.
\<close>

datatype session_error = ValidationError | InfrastructureError

text \<open>
  Modelled from the spec: validation of one element (section 4.1: a flat record with a
  recognized action tag; "unrecognized tags fail validation rather than being silently
  skipped"); the validator is missing.
\<close>

definition validate_element :: "raw_element \<Rightarrow> session_error + command" where
  "validate_element e =
     (case e of
        NotFlat \<Rightarrow> Inl ValidationError
      | FlatRecord kvs \<Rightarrow>
          (case map_of kvs ''action'' of
             None \<Rightarrow> Inl ValidationError
           | Some a \<Rightarrow>
               (case recognize a of
                  None \<Rightarrow> Inl ValidationError
                | Some tag \<Rightarrow>
                    Inr \<lparr>action = tag, target = map_of kvs ''target'',
                         input_value = map_of kvs ''value'',
                         cmd_description = map_of kvs ''description''\<rparr>)))"

text \<open>
  Modelled from the spec: validation of the elements in order, failing on the first that
  fails (section 4.1: "fail fast"); the validator is missing.
\<close>

fun validate_elements :: "raw_element list \<Rightarrow> session_error + command list" where
  "validate_elements [] = Inr []"
| "validate_elements (e # es) =
     (case validate_element e of
        Inl err \<Rightarrow> Inl err
      | Inr c \<Rightarrow> (case validate_elements es of Inl err \<Rightarrow> Inl err | Inr cs \<Rightarrow> Inr (c # cs)))"

text \<open>
  Modelled from the spec: the Command Validator (section 4.1).  The raw text is scanned
  for source-code indicators and validation fails if one is found; otherwise the text
  must deserialize into a sequence whose elements all validate.  The validator is
  missing.
\<close>

definition validate :: "policy \<Rightarrow> string \<Rightarrow> session_error + command list" where
  "validate pol raw =
     (if code_indicator pol raw then Inl ValidationError
      else (case deserialize pol raw of
              None \<Rightarrow> Inl ValidationError
            | Some NotSequence \<Rightarrow> Inl ValidationError
            | Some (Sequence es) \<Rightarrow> validate_elements es))"

text \<open>
  Modelled from the spec: the result of one dispatch through the Automation Driver
  Adapter (section 4.2: \<open>ok\<close> with an image for a capturing action, or \<open>failed\<close> with a
  reason; section 4.3 adds the failure of the driver itself); the adapter is missing.
  The driver is a parameter: what it answers to the \<open>n\<close>-th dispatch of a session.
\<close>

datatype outcome = Ok "string option" | Failed string | Crashed string

type_synonym driver = "nat \<Rightarrow> command \<Rightarrow> outcome"

text \<open>
  Modelled from the spec: the events of section 6 that a step run emits, each with the
  step, the sequence number of section 5 and its payload (section 3: "sequence number,
  kind, payload"); the server's event codec is missing.
\<close>

datatype event_kind =
    Progress action_tag
  | ScreenshotTaken string
  | ExecutionComplete string "string option"
  | ExecutionError string

record event =
  ev_step :: nat
  seq :: nat
  kind :: event_kind

definition terminal_kind :: "event_kind \<Rightarrow> bool" where
  "terminal_kind k =
     (case k of ExecutionComplete st r \<Rightarrow> True | ExecutionError m \<Rightarrow> True | _ \<Rightarrow> False)"

text \<open>
  Modelled from the spec: how the iteration over the commands ends (section 4.3: all
  commands succeed, a command fails, or the driver fails); the session loop is missing.
\<close>

datatype run_end = AllSucceeded | CommandFailed string | DriverCrashed string

text \<open>
  Modelled from the spec: the \<open>Running\<close> state of section 4.3.  The commands are taken
  in order; before each dispatch a \<open>progress\<close> event is emitted, after it a \<open>screenshot\<close>
  event if the adapter returned an image; a failure stops the iteration at once.  Each
  event takes the next sequence number.  The result is the events, the commands given to
  the driver, and how the iteration ended.  The session loop is missing.
\<close>

fun run_commands ::
  "driver \<Rightarrow> nat \<Rightarrow> nat \<Rightarrow> nat \<Rightarrow> command list \<Rightarrow> event list \<times> command list \<times> run_end"
where
  "run_commands drv sid n i [] = ([], [], AllSucceeded)"
| "run_commands drv sid n i (c # cs) =
     (let announced = \<lparr>ev_step = sid, seq = n, kind = Progress (action c)\<rparr> in
      case drv i c of
        Failed reason \<Rightarrow> ([announced], [c], CommandFailed reason)
      | Crashed reason \<Rightarrow> ([announced], [c], DriverCrashed reason)
      | Ok None \<Rightarrow>
          (case run_commands drv sid (n + 1) (i + 1) cs of
             (evs, calls, e) \<Rightarrow> (announced # evs, c # calls, e))
      | Ok (Some img) \<Rightarrow>
          (case run_commands drv sid (n + 2) (i + 1) cs of
             (evs, calls, e) \<Rightarrow>
               (announced # \<lparr>ev_step = sid, seq = n + 1, kind = ScreenshotTaken img\<rparr> # evs,
                c # calls, e)))"

text \<open>
  Modelled from the spec: an \<open>execute_step\<close> request as the session sees it after
  resolving the target (section 4.3): the step, whether it is the login step, and the
  stored payloads of the login step and of the target; the store access is missing.
\<close>

record request =
  req_step :: nat
  is_login_step :: bool
  login_raw :: string
  target_raw :: string

text \<open>
  Modelled from the spec: the effective command sequence (section 3 and the glossary:
  for a step other than the login step, the login step's commands followed by the
  target's own; the login step itself runs its own commands); the resolution code is
  missing.
\<close>

definition effective_sequence ::
  "policy \<Rightarrow> request \<Rightarrow> session_error + command list" where
  "effective_sequence pol rq =
     (case validate pol (target_raw rq) of
        Inl err \<Rightarrow> Inl err
      | Inr own \<Rightarrow>
          (if is_login_step rq then Inr own
           else (case validate pol (login_raw rq) of
                   Inl err \<Rightarrow> Inl err
                 | Inr prefix \<Rightarrow> Inr (prefix @ own))))"

text \<open>
  Modelled from the spec: the terminal states of section 4.3 and what a finished session
  leaves behind: the events in the order emitted, the commands the driver was given,
  whether the driver adapter was acquired, and the state reached.  The session type is
  missing.
\<close>

datatype terminal_state = Completed | FailedState | Cancelled | Errored

record session =
  events :: "event list"
  driver_calls :: "command list"
  adapter_acquired :: bool
  final_state :: terminal_state

text \<open>
  Modelled from the spec: a step-level session from request to terminal event (sections
  4.3 and 7).  A validation failure goes straight to \<open>Failed\<close> with an
  \<open>execution_error\<close>, before the adapter is acquired; an adapter that cannot be acquired
  ends in \<open>Errored\<close>; otherwise the commands run, and the session ends with
  \<open>execution_complete\<close> carrying \<open>passed\<close> or \<open>failed\<close> and the reason, or with
  \<open>execution_error\<close> when the driver failed.  The terminal event takes the next sequence
  number.  Cancellation by a closing channel is not modelled.  \<open>handle_execute_step\<close> is
  missing.
\<close>

definition execute_step :: "policy \<Rightarrow> driver \<Rightarrow> bool \<Rightarrow> request \<Rightarrow> session" where
  "execute_step pol drv acquirable rq =
     (case effective_sequence pol rq of
        Inl err \<Rightarrow>
          \<lparr>events = [\<lparr>ev_step = req_step rq, seq = 1,
                       kind = ExecutionError ''invalid stored commands''\<rparr>],
           driver_calls = [], adapter_acquired = False, final_state = FailedState\<rparr>
      | Inr cmds \<Rightarrow>
          (if \<not> acquirable then
             \<lparr>events = [\<lparr>ev_step = req_step rq, seq = 1,
                          kind = ExecutionError ''driver could not be acquired''\<rparr>],
              driver_calls = [], adapter_acquired = False, final_state = Errored\<rparr>
           else
             (case run_commands drv (req_step rq) 1 0 cmds of
                (evs, calls, e) \<Rightarrow>
                  (let last_seq = 1 + length evs;
                       closing = (\<lambda>k. evs @ [\<lparr>ev_step = req_step rq, seq = last_seq, kind = k\<rparr>])
                   in case e of
                        AllSucceeded \<Rightarrow>
                          \<lparr>events = closing (ExecutionComplete ''passed'' None),
                           driver_calls = calls, adapter_acquired = True,
                           final_state = Completed\<rparr>
                      | CommandFailed reason \<Rightarrow>
                          \<lparr>events = closing (ExecutionComplete ''failed'' (Some reason)),
                           driver_calls = calls, adapter_acquired = True,
                           final_state = FailedState\<rparr>
                      | DriverCrashed reason \<Rightarrow>
                          \<lparr>events = closing (ExecutionError reason),
                           driver_calls = calls, adapter_acquired = True,
                           final_state = Errored\<rparr>))))"

text \<open>
  Modelled from the spec: the actions that the \<open>progress\<close> events of a list announce,
  in the order of the list (section 4.3: a \<open>progress\<close> event before each dispatch,
  "announcing intent"); the event codec is missing.
\<close>

definition announced_actions :: "event list \<Rightarrow> action_tag list" where
  "announced_actions evs =
     List.map_filter (\<lambda>ev. case kind ev of Progress a \<Rightarrow> Some a | _ \<Rightarrow> None) evs"

text \<open>
  Values used to exercise the session: a deserializer that knows two stored payloads, a
  scan for the indicators the spec lists, and a driver that captures an image on every
  navigation and fails on nothing.
\<close>

definition sample_policy :: policy where
  \<open>sample_policy =
     \<lparr>deserialize = (\<lambda>raw.
          if raw = ''[{"action": "navigate"}, {"action": "click"}]''
          then Some (Sequence [FlatRecord [(''action'', ''navigate'')],
                               FlatRecord [(''action'', ''click'')]])
          else if raw = ''[{"action": "type"}]''
          then Some (Sequence [FlatRecord [(''action'', ''type'')]])
          else None),
      code_indicator = (\<lambda>raw. includes_str raw ''import '' \<or> includes_str raw ''def ''
                                \<or> includes_str raw ''class '')\<rparr>\<close>

definition sample_driver :: driver where
  "sample_driver i c = (if action c = Navigate then Ok (Some ''iVBORw0KGgo='') else Ok None)"

definition sample_request :: request where
  \<open>sample_request =
     \<lparr>req_step = 5, is_login_step = False,
      login_raw = ''[{"action": "type"}]'',
      target_raw = ''[{"action": "navigate"}, {"action": "click"}]''\<rparr>\<close>

definition scripted_request :: request where
  \<open>scripted_request =
     \<lparr>req_step = 7, is_login_step = False,
      login_raw = ''[{"action": "type"}]'',
      target_raw = ''def run(): pass''\<rparr>\<close>

section \<open>Command arrays as JSON text (ViewScriptModal)\<close>

text \<open>
  \<open>ViewScriptModal\<close> reads the stored payload with \<open>JSON.parse\<close> and writes the commands
  it got with \<open>JSON.stringify(jsonCommands, null, 2)\<close>.  Both are built into the
  language; they are written out here as the language standard defines them, on texts
  that are lists of UTF-16 code units, the elements of a JavaScript string.
\<close>

type_synonym jstr = "nat list"

definition units :: "string \<Rightarrow> jstr" where
  "units s = map of_char s"

text \<open>
  A number of the language is a double.  Here the finite ones are a type parameter \<open>'n\<close>,
  and what the runtime does with them, printing one (\<open>Number::toString\<close>) and reading a
  number token, comes as a pair of functions; the two infinities, which reading produces
  for a literal beyond the range of the doubles, are values of their own.
\<close>

datatype 'n number = Finite 'n | PosInfinity | NegInfinity

record 'n numerics =
  show_number :: "'n \<Rightarrow> jstr"
  read_number :: "jstr \<Rightarrow> 'n number option"

text \<open>
  What \<open>JSON.parse\<close> can return.  An object is the list of its properties in the order
  the language enumerates them.
\<close>

datatype 'n json =
    JNull
  | JBool bool
  | JNumber "'n number"
  | JString jstr
  | JArray "'n json list"
  | JObject "(jstr \<times> 'n json) list"

subsection \<open>Property order\<close>

text \<open>
  The properties of an object are enumerated with the array indices first, the canonical
  decimal numerals below \<open>2^32 - 1\<close>, in ascending numeric order, and all other keys after
  them in the order they were created.  Defining a property that exists replaces its value
  and keeps its place.
\<close>

definition is_digit :: "nat \<Rightarrow> bool" where
  "is_digit c = (48 \<le> c \<and> c \<le> 57)"

fun digits_value :: "nat \<Rightarrow> jstr \<Rightarrow> nat" where
  "digits_value acc [] = acc"
| "digits_value acc (c # cs) = digits_value (10 * acc + (c - 48)) cs"

definition is_index :: "jstr \<Rightarrow> bool" where
  "is_index k = (k \<noteq> [] \<and> list_all is_digit k \<and> (hd k \<noteq> 48 \<or> length k = 1) \<and>
                 digits_value 0 k < 4294967295)"

definition precedes :: "jstr \<Rightarrow> jstr \<Rightarrow> bool" where
  "precedes k k' =
     (if is_index k then (\<not> is_index k' \<or> digits_value 0 k < digits_value 0 k')
      else \<not> is_index k')"

fun insert_index :: "jstr \<Rightarrow> 'a \<Rightarrow> (jstr \<times> 'a) list \<Rightarrow> (jstr \<times> 'a) list" where
  "insert_index k v [] = [(k, v)]"
| "insert_index k v ((k', v') # kvs) =
     (if is_index k' \<and> digits_value 0 k' < digits_value 0 k
      then (k', v') # insert_index k v kvs
      else (k, v) # (k', v') # kvs)"

fun replace_value :: "jstr \<Rightarrow> 'a \<Rightarrow> (jstr \<times> 'a) list \<Rightarrow> (jstr \<times> 'a) list" where
  "replace_value k v [] = []"
| "replace_value k v ((k', v') # kvs) =
     (if k' = k then (k, v) # kvs else (k', v') # replace_value k v kvs)"

definition define_property :: "jstr \<Rightarrow> 'a \<Rightarrow> (jstr \<times> 'a) list \<Rightarrow> (jstr \<times> 'a) list" where
  "define_property k v kvs =
     (if k \<in> set (map fst kvs) then replace_value k v kvs
      else if is_index k then insert_index k v kvs
      else kvs @ [(k, v)])"

subsection \<open>Writing\<close>

text \<open>
  \<open>QuoteJSONString\<close>: the seven characters with a short escape, the other control
  characters and every surrogate that is not half of a pair as \<open>\uXXXX\<close> in lower-case
  hexadecimal, everything else as it is.
\<close>

definition hex_digit :: "nat \<Rightarrow> nat" where
  "hex_digit d = (if d < 10 then 48 + d else 87 + d)"

definition unicode_escape :: "nat \<Rightarrow> jstr" where
  "unicode_escape c =
     [92, 117, hex_digit (c div 4096 mod 16), hex_digit (c div 256 mod 16),
      hex_digit (c div 16 mod 16), hex_digit (c mod 16)]"

definition is_high_surrogate :: "nat \<Rightarrow> bool" where
  "is_high_surrogate c = (55296 \<le> c \<and> c \<le> 56319)"

definition is_low_surrogate :: "nat \<Rightarrow> bool" where
  "is_low_surrogate c = (56320 \<le> c \<and> c \<le> 57343)"

definition escape_unit :: "nat \<Rightarrow> jstr" where
  "escape_unit c =
     (if c = 8 then [92, 98] else if c = 9 then [92, 116] else if c = 10 then [92, 110]
      else if c = 12 then [92, 102] else if c = 13 then [92, 114]
      else if c = 34 then [92, 34] else if c = 92 then [92, 92]
      else if c < 32 \<or> is_high_surrogate c \<or> is_low_surrogate c then unicode_escape c
      else [c])"

fun escape_units :: "jstr \<Rightarrow> jstr" where
  "escape_units [] = []"
| "escape_units [c] = escape_unit c"
| "escape_units (c # d # cs) =
     (if is_high_surrogate c \<and> is_low_surrogate d then c # d # escape_units cs
      else escape_unit c @ escape_units (d # cs))"

definition quote :: "jstr \<Rightarrow> jstr" where
  "quote s = 34 # escape_units s @ [34]"

text \<open>
  \<open>SerializeJSONProperty\<close> with the gap of two spaces that \<open>handleExportJson\<close> asks for.
  The second argument is the current indentation.  A number that is not finite is written
  as \<open>null\<close>.
\<close>

definition newline_indent :: "nat \<Rightarrow> jstr" where
  "newline_indent n = 10 # replicate n 32"

fun join :: "jstr \<Rightarrow> jstr list \<Rightarrow> jstr" where
  "join sep [] = []"
| "join sep [x] = x"
| "join sep (x # y # ys) = x @ sep @ join sep (y # ys)"

fun stringify_value :: "'n numerics \<Rightarrow> nat \<Rightarrow> 'n json \<Rightarrow> jstr" where
  "stringify_value cod ind JNull = [110, 117, 108, 108]"
| "stringify_value cod ind (JBool b) =
     (if b then [116, 114, 117, 101] else [102, 97, 108, 115, 101])"
| "stringify_value cod ind (JNumber (Finite x)) = show_number cod x"
| "stringify_value cod ind (JNumber PosInfinity) = [110, 117, 108, 108]"
| "stringify_value cod ind (JNumber NegInfinity) = [110, 117, 108, 108]"
| "stringify_value cod ind (JString s) = quote s"
| "stringify_value cod ind (JArray xs) =
     (if xs = [] then [91, 93]
      else [91] @ newline_indent (ind + 2) @
           join (44 # newline_indent (ind + 2)) (map (stringify_value cod (ind + 2)) xs) @
           newline_indent ind @ [93])"
| "stringify_value cod ind (JObject kvs) =
     (if kvs = [] then [123, 125]
      else [123] @ newline_indent (ind + 2) @
           join (44 # newline_indent (ind + 2))
             (map (\<lambda>kv. quote (fst kv) @ [58, 32] @ stringify_value cod (ind + 2) (snd kv)) kvs) @
           newline_indent ind @ [125])"

definition JSON_stringify :: "'n numerics \<Rightarrow> 'n json \<Rightarrow> jstr" where
  "JSON_stringify cod v = stringify_value cod 0 v"

subsection \<open>Reading\<close>

definition is_ws :: "nat \<Rightarrow> bool" where
  "is_ws c = (c = 9 \<or> c = 10 \<or> c = 13 \<or> c = 32)"

definition skip_ws :: "jstr \<Rightarrow> jstr" where
  "skip_ws s = dropWhile is_ws s"

definition hex_value :: "nat \<Rightarrow> nat option" where
  "hex_value c =
     (if 48 \<le> c \<and> c \<le> 57 then Some (c - 48)
      else if 97 \<le> c \<and> c \<le> 102 then Some (c - 87)
      else if 65 \<le> c \<and> c \<le> 70 then Some (c - 55)
      else None)"

definition hex4_value :: "nat \<Rightarrow> nat \<Rightarrow> nat \<Rightarrow> nat \<Rightarrow> nat option" where
  "hex4_value a b c d =
     (case (hex_value a, hex_value b, hex_value c, hex_value d) of
        (Some w, Some x, Some y, Some z) \<Rightarrow> Some (4096 * w + 256 * x + 16 * y + z)
      | _ \<Rightarrow> None)"

definition simple_escape :: "nat \<Rightarrow> nat option" where
  "simple_escape e =
     (if e = 34 then Some 34 else if e = 92 then Some 92 else if e = 47 then Some 47
      else if e = 98 then Some 8 else if e = 102 then Some 12 else if e = 110 then Some 10
      else if e = 114 then Some 13 else if e = 116 then Some 9 else None)"

definition cons_unit :: "nat \<Rightarrow> (jstr \<times> jstr) option \<Rightarrow> (jstr \<times> jstr) option" where
  "cons_unit c r = (case r of None \<Rightarrow> None | Some (s, rest) \<Rightarrow> Some (c # s, rest))"

text \<open>
  The characters of a string after its opening quote, up to the closing one: the string
  they spell and the text after it.
\<close>

fun read_string :: "jstr \<Rightarrow> (jstr \<times> jstr) option" where
  "read_string [] = None"
| "read_string (c # cs) =
     (if c = 34 then Some ([], cs)
      else if c = 92 then
        (case cs of
           [] \<Rightarrow> None
         | e # r \<Rightarrow>
             (if e = 117 then
                (case r of
                   h1 # h2 # h3 # h4 # r' \<Rightarrow>
                     (case hex4_value h1 h2 h3 h4 of
                        None \<Rightarrow> None
                      | Some n \<Rightarrow> cons_unit n (read_string r'))
                 | _ \<Rightarrow> None)
              else (case simple_escape e of
                      None \<Rightarrow> None
                    | Some x \<Rightarrow> cons_unit x (read_string r))))
      else if c < 32 then None
      else cons_unit c (read_string cs))"

definition is_number_char :: "nat \<Rightarrow> bool" where
  "is_number_char c = (is_digit c \<or> c = 43 \<or> c = 45 \<or> c = 46 \<or> c = 101 \<or> c = 69)"

definition starts :: "jstr \<Rightarrow> jstr \<Rightarrow> bool" where
  "starts p s = (take (length p) s = p)"

text \<open>
  A value, the elements of an array after the first bracket, and the members of an object
  after the first brace.  The first argument after the numerics bounds the number of
  nested calls; \<open>JSON_parse\<close> passes more than the text can use.  The text given to
  \<open>parse_value\<close> starts at the value's first character.
\<close>

fun parse_value :: "'n numerics \<Rightarrow> nat \<Rightarrow> jstr \<Rightarrow> ('n json \<times> jstr) option"
  and parse_elements ::
    "'n numerics \<Rightarrow> nat \<Rightarrow> 'n json list \<Rightarrow> jstr \<Rightarrow> ('n json list \<times> jstr) option"
  and parse_members ::
    "'n numerics \<Rightarrow> nat \<Rightarrow> (jstr \<times> 'n json) list \<Rightarrow> jstr \<Rightarrow>
       ((jstr \<times> 'n json) list \<times> jstr) option"
where
  "parse_value cod 0 s = None"
| "parse_value cod (Suc fuel) s =
     (case s of
        [] \<Rightarrow> None
      | c # r \<Rightarrow>
          (if c = 123 then
             (case skip_ws r of
                [] \<Rightarrow> None
              | d # r' \<Rightarrow>
                  (if d = 125 then Some (JObject [], r')
                   else (case parse_members cod fuel [] (d # r') of
                           None \<Rightarrow> None
                         | Some (kvs, rest) \<Rightarrow> Some (JObject kvs, rest))))
           else if c = 91 then
             (case skip_ws r of
                [] \<Rightarrow> None
              | d # r' \<Rightarrow>
                  (if d = 93 then Some (JArray [], r')
                   else (case parse_elements cod fuel [] (d # r') of
                           None \<Rightarrow> None
                         | Some (xs, rest) \<Rightarrow> Some (JArray xs, rest))))
           else if c = 34 then
             (case read_string r of
                None \<Rightarrow> None
              | Some (str, rest) \<Rightarrow> Some (JString str, rest))
           else if starts [110, 117, 108, 108] s then Some (JNull, drop 4 s)
           else if starts [116, 114, 117, 101] s then Some (JBool True, drop 4 s)
           else if starts [102, 97, 108, 115, 101] s then Some (JBool False, drop 5 s)
           else if c = 45 \<or> is_digit c then
             (case read_number cod (takeWhile is_number_char s) of
                None \<Rightarrow> None
              | Some n \<Rightarrow> Some (JNumber n, dropWhile is_number_char s))
           else None))"
| "parse_elements cod 0 acc s = None"
| "parse_elements cod (Suc fuel) acc s =
     (case parse_value cod fuel s of
        None \<Rightarrow> None
      | Some (v, r) \<Rightarrow>
          (case skip_ws r of
             [] \<Rightarrow> None
           | d # r' \<Rightarrow>
               (if d = 44 then parse_elements cod fuel (acc @ [v]) (skip_ws r')
                else if d = 93 then Some (acc @ [v], r')
                else None)))"
| "parse_members cod 0 acc s = None"
| "parse_members cod (Suc fuel) acc s =
     (case s of
        [] \<Rightarrow> None
      | q # r \<Rightarrow>
          (if q \<noteq> 34 then None
           else (case read_string r of
                   None \<Rightarrow> None
                 | Some (k, r1) \<Rightarrow>
                     (case skip_ws r1 of
                        [] \<Rightarrow> None
                      | c # r2 \<Rightarrow>
                          (if c \<noteq> 58 then None
                           else (case parse_value cod fuel (skip_ws r2) of
                                   None \<Rightarrow> None
                                 | Some (v, r3) \<Rightarrow>
                                     (case skip_ws r3 of
                                        [] \<Rightarrow> None
                                      | d # r4 \<Rightarrow>
                                          (if d = 44
                                           then parse_members cod fuel
                                                  (define_property k v acc) (skip_ws r4)
                                           else if d = 125
                                           then Some (define_property k v acc, r4)
                                           else None))))))))"

definition JSON_parse :: "'n numerics \<Rightarrow> jstr \<Rightarrow> 'n json option" where
  "JSON_parse cod s =
     (case parse_value cod (Suc (length s)) (skip_ws s) of
        None \<Rightarrow> None
      | Some (v, rest) \<Rightarrow> (if skip_ws rest = [] then Some v else None))"

subsection \<open>What survives writing and reading\<close>

text \<open>
  The keys of an object \<open>JSON.parse\<close> built are pairwise different and stand in the order
  of enumeration.
\<close>

definition canonical :: "(jstr \<times> 'a) list \<Rightarrow> bool" where
  "canonical kvs = (distinct (map fst kvs) \<and> sorted_wrt precedes (map fst kvs))"

fun well_ordered :: "'n json \<Rightarrow> bool" where
  "well_ordered (JArray xs) = list_all well_ordered xs"
| "well_ordered (JObject kvs) = (canonical kvs \<and> list_all (\<lambda>kv. well_ordered (snd kv)) kvs)"
| "well_ordered v = True"

text \<open>
  A number survives when it is finite, is printed as a number token, and the token is
  read back as the same number.  The language promises this of every finite double but
  the negative zero, which is printed as \<open>0\<close>.
\<close>

definition number_token :: "jstr \<Rightarrow> bool" where
  "number_token t = (t \<noteq> [] \<and> (hd t = 45 \<or> is_digit (hd t)) \<and> list_all is_number_char t)"

fun numbers_survive :: "'n numerics \<Rightarrow> 'n json \<Rightarrow> bool" where
  "numbers_survive cod (JNumber (Finite x)) =
     (number_token (show_number cod x) \<and>
      read_number cod (show_number cod x) = Some (Finite x))"
| "numbers_survive cod (JNumber PosInfinity) = False"
| "numbers_survive cod (JNumber NegInfinity) = False"
| "numbers_survive cod (JArray xs) = list_all (numbers_survive cod) xs"
| "numbers_survive cod (JObject kvs) = list_all (\<lambda>kv. numbers_survive cod (snd kv)) kvs"
| "numbers_survive cod v = True"

text \<open>A bound on the nested calls that reading a value back takes.\<close>

fun weight :: "'n json \<Rightarrow> nat" where
  "weight (JArray xs) = Suc (sum_list (map (\<lambda>x. Suc (weight x)) xs))"
| "weight (JObject kvs) = Suc (sum_list (map (\<lambda>kv. Suc (weight (snd kv))) kvs))"
| "weight v = 0"

subsection \<open>The modal\<close>

text \<open>
  \<open>ViewScriptModal\<close> starts from an empty array and no error.  It parses
  \<open>step.selenium_script_json\<close> when that is there and not empty, and records an error,
  keeping the empty array, when it is missing or is not JSON.  \<open>handleExportJson\<close>
  writes \<open>jsonCommands\<close> as text.
\<close>

datatype json_error = NoCommands | ParseError

record 'n modal =
  jsonCommands :: "'n json"
  jsonError :: "json_error option"

definition ViewScriptModal :: "'n numerics \<Rightarrow> step \<Rightarrow> 'n modal" where
  "ViewScriptModal cod st =
     (case selenium_script_json st of
        None \<Rightarrow> \<lparr>jsonCommands = JArray [], jsonError = Some NoCommands\<rparr>
      | Some raw \<Rightarrow>
          (if truthy raw
           then (case JSON_parse cod (units raw) of
                   None \<Rightarrow> \<lparr>jsonCommands = JArray [], jsonError = Some ParseError\<rparr>
                 | Some v \<Rightarrow> \<lparr>jsonCommands = v, jsonError = None\<rparr>)
           else \<lparr>jsonCommands = JArray [], jsonError = Some NoCommands\<rparr>))"

definition handleExportJson :: "'n numerics \<Rightarrow> 'n modal \<Rightarrow> jstr" where
  "handleExportJson cod m = JSON_stringify cod (jsonCommands m)"

subsection \<open>Numbers that need no rounding\<close>

text \<open>
  A stand-in for the runtime's numerics on the part of the doubles where nothing is
  rounded: the integers up to \<open>2^53\<close> in absolute value.  A token is read by the number
  grammar of JSON into a sign, the digits of its integer and fraction parts and an
  exponent.  A value of \<open>2^1024\<close> or more lies beyond every finite double and reads as an
  infinity; an integer value up to \<open>2^53\<close> is that integer; every other token, the
  negative zero among them, is left to the runtime and is not read here.  An integer is
  printed in decimal, as \<open>Number::toString\<close> prints it.
\<close>

fun digits_of :: "nat \<Rightarrow> jstr" where
  "digits_of n = (if n < 10 then [48 + n] else digits_of (n div 10) @ [48 + n mod 10])"

declare digits_of.simps [simp del]

definition show_exact :: "int \<Rightarrow> jstr" where
  "show_exact n = (if n < 0 then 45 # digits_of (nat (- n)) else digits_of (nat n))"

definition read_exponent :: "jstr \<Rightarrow> int option" where
  "read_exponent s =
     (case s of
        [] \<Rightarrow> Some 0
      | c # r \<Rightarrow>
          (if c = 101 \<or> c = 69 then
             (let sgn = (if r \<noteq> [] \<and> hd r = 45 then - 1 else 1);
                  ds = (if r \<noteq> [] \<and> (hd r = 45 \<or> hd r = 43) then tl r else r)
              in if ds \<noteq> [] \<and> list_all is_digit ds
                 then Some (sgn * int (digits_value 0 ds)) else None)
           else None))"

definition classify :: "bool \<Rightarrow> nat \<Rightarrow> int number option" where
  "classify negative n =
     (if n = 0 then (if negative then None else Some (Finite 0))
      else if 2 ^ 1024 \<le> n then Some (if negative then NegInfinity else PosInfinity)
      else if n \<le> 2 ^ 53 then Some (Finite (if negative then - int n else int n))
      else None)"

definition read_exact :: "jstr \<Rightarrow> int number option" where
  "read_exact t =
     (let negative = (t \<noteq> [] \<and> hd t = 45);
          r1 = (if negative then tl t else t);
          ip = takeWhile is_digit r1;
          r2 = dropWhile is_digit r1;
          dotted = (r2 \<noteq> [] \<and> hd r2 = 46);
          fp = (if dotted then takeWhile is_digit (tl r2) else []);
          r3 = (if dotted then dropWhile is_digit (tl r2) else r2)
      in if ip = [] \<or> (hd ip = 48 \<and> length ip > 1) \<or> (dotted \<and> fp = []) then None
         else (case read_exponent r3 of
                 None \<Rightarrow> None
               | Some e \<Rightarrow>
                   (let m = digits_value 0 (ip @ fp); shift = e - int (length fp)
                    in if 0 \<le> shift then classify negative (m * 10 ^ nat shift)
                       else if 10 ^ nat (- shift) dvd m
                       then classify negative (m div 10 ^ nat (- shift))
                       else if m = 0 then classify negative 0
                       else None)))"

definition exact_numbers :: "int numerics" where
  "exact_numbers = \<lparr>show_number = show_exact, read_number = read_exact\<rparr>"

text \<open>Payloads used to exercise the model.\<close>

definition wait_payload :: string where
  \<open>wait_payload =
     ''[{"action": "navigate", "target": "http://localhost:3001"}, {"action": "wait", "value": 2}]''\<close>

definition overflow_payload :: string where
  \<open>overflow_payload = ''[{"action": "wait", "value": 1e309}]''\<close>

definition wait_commands :: "int json" where
  "wait_commands =
     JArray [JObject [(units ''action'', JString (units ''navigate'')),
                      (units ''target'', JString (units ''http://localhost:3001''))],
             JObject [(units ''action'', JString (units ''wait'')),
                      (units ''value'', JNumber (Finite 2))]]"

definition overflow_commands :: "int json" where
  "overflow_commands =
     JArray [JObject [(units ''action'', JString (units ''wait'')),
                      (units ''value'', JNumber PosInfinity)]]"

definition nulled_commands :: "int json" where
  "nulled_commands =
     JArray [JObject [(units ''action'', JString (units ''wait'')),
                      (units ''value'', JNull)]]"

definition stored_step :: "string \<Rightarrow> step" where
  "stored_step raw = (runnable_step 3)\<lparr>selenium_script_json := Some raw\<rparr>"

subsection \<open>Texts between values\<close>

text \<open>
  Two conditions on the text around a printed value that the reading functions rely on:
  what follows a number must not continue its token, and what starts a value or a member
  is neither white space nor a closing bracket.
\<close>

definition follow_ok :: "jstr \<Rightarrow> bool" where
  "follow_ok rest = (rest = [] \<or> \<not> is_number_char (hd rest))"

definition first_ok :: "jstr \<Rightarrow> bool" where
  "first_ok s = (case s of [] \<Rightarrow> False | c # t \<Rightarrow> \<not> is_ws c \<and> c \<noteq> 93 \<and> c \<noteq> 125)"

section \<open>Properties of the mock target application\<close>

subsection \<open>Login\<close>

text \<open>
  Whatever the document holds, a call of \<open>handleLogin\<close> either leaves the store as it
  was or writes both keys together: the two \<open>setItem\<close> calls sit in the same branch, and
  every exit before them (a missing element, an empty field) writes nothing.
\<close>

lemma handleLogin_storage_cases:
  "sessionStorage (snd (handleLogin pg)) = sessionStorage pg \<or>
   (\<exists>u. u \<noteq> [] \<and> sessionStorage (snd (handleLogin pg)) =
      (sessionStorage pg)(''o9-username'' \<mapsto> u, ''o9-logged-in'' \<mapsto> ''true''))"
  by (auto simp: handleLogin_def Let_def getElementById_def setItem_def set_href_def truthy_def
      split: option.splits)

text \<open>
  Claim C10.  On the login page (the three elements the handler looks up exist, and no
  navigation is pending), the login succeeds, that is both keys \<open>o9-username\<close> and
  \<open>o9-logged-in\<close> are set and the page navigates to \<open>dashboard.html\<close>, if and only if
  the submitted username and password are both non-empty.  When either is empty the error
  message is switched to \<open>display: block\<close>, the store is exactly what it was and no
  navigation is requested.  The handler returns \<open>false\<close> either way.
\<close>

theorem handleLogin_succeeds_iff_both_nonempty:
  assumes "document pg ''username'' = Some ue"
    and "document pg ''password'' = Some pe"
    and "document pg ''error-message'' = Some em"
    and "href_assigned pg = None"
  shows "fst (handleLogin pg) = Inr False \<and>
    ((sessionStorage (snd (handleLogin pg)) ''o9-username'' = Some (el_value ue) \<and>
      sessionStorage (snd (handleLogin pg)) ''o9-logged-in'' = Some ''true'' \<and>
      href_assigned (snd (handleLogin pg)) = Some ''dashboard.html'')
     \<longleftrightarrow> (el_value ue \<noteq> [] \<and> el_value pe \<noteq> [])) \<and>
    (el_value ue = [] \<or> el_value pe = [] \<longrightarrow>
       sessionStorage (snd (handleLogin pg)) = sessionStorage pg \<and>
       href_assigned (snd (handleLogin pg)) = None \<and>
       document (snd (handleLogin pg)) ''error-message'' =
         Some (em\<lparr>style_display := ''block''\<rparr>))"
  using assms
  by (auto simp: handleLogin_def Let_def getElementById_def setItem_def set_href_def truthy_def)

text \<open>A username with an empty password: nothing is stored and the page stays.\<close>

theorem handleLogin_empty_password_witness:
  "sessionStorage (snd (handleLogin (login_page ''testuser'' ''''))) = Map.empty \<and>
   href_assigned (snd (handleLogin (login_page ''testuser'' ''''))) = None \<and>
   sessionStorage (snd (handleLogin (login_page ''testuser'' ''''))) ''o9-logged-in'' = None"
  using handleLogin_succeeds_iff_both_nonempty [of "login_page ''testuser'' ''''"
     "\<lparr>el_value = ''testuser'', style_display = '''', textContent = ''''\<rparr>"
     "\<lparr>el_value = '''', style_display = '''', textContent = ''''\<rparr>"
     "\<lparr>el_value = '''', style_display = ''none'', textContent = ''Invalid credentials''\<rparr>"]
  by (simp add: login_page_def)

text \<open>The README's test credentials: both keys are stored and the dashboard is requested.\<close>

lemma handleLogin_test_credentials:
  "sessionStorage (snd (handleLogin (login_page ''testuser'' ''password123''))) ''o9-username''
     = Some ''testuser'' \<and>
   sessionStorage (snd (handleLogin (login_page ''testuser'' ''password123''))) ''o9-logged-in''
     = Some ''true'' \<and>
   href_assigned (snd (handleLogin (login_page ''testuser'' ''password123'')))
     = Some ''dashboard.html''"
  by (simp add: handleLogin_def login_page_def Let_def getElementById_def setItem_def
      set_href_def truthy_def)

subsection \<open>The authentication check on page load\<close>

text \<open>
  The check tells the login page from the others by its path: a path that holds
  \<open>index.html\<close>, or the site root \<open>/\<close>, is left alone.  The pages the README lists beside
  the login page are all recognised as protected.
\<close>

lemma readme_pages_are_protected:
  "\<not> includes_str ''/dashboard.html'' ''index.html'' \<and>
   \<not> includes_str ''/forecast.html'' ''index.html'' \<and>
   \<not> includes_str ''/bom-setup.html'' ''index.html''"
  by simp



text \<open>
  The converse cases: an authenticated session stays where it is, and so does the login
  page itself.  A stored but empty \<open>o9-logged-in\<close> counts as logged out, since the check
  tests the value for truthiness.
\<close>

lemma checkAuth_stays_when_logged_in:
  "getItem pg ''o9-logged-in'' = Some v \<Longrightarrow> v \<noteq> [] \<Longrightarrow>
   href_assigned (checkAuth pg) = href_assigned pg"
  by (auto simp: checkAuth_def Let_def truthy_opt_def truthy_def set_href_def getItem_def
      getElementById_def split: option.splits)

lemma checkAuth_stays_on_login_page:
  "includes_str (pathname pg) ''index.html'' \<or> pathname pg = ''/'' \<Longrightarrow>
   href_assigned (checkAuth pg) = href_assigned pg"
  by (auto simp: checkAuth_def Let_def set_href_def getItem_def getElementById_def
      split: option.splits)

section \<open>Properties of the test-case page\<close>

subsection \<open>The order of the steps\<close>

lemma mset_insert_by: "mset (insert_by c x ys) = add_mset x (mset ys)"
  by (induction ys) auto

lemma mset_array_sort: "mset (array_sort c xs) = mset xs"
  by (induction xs) (auto simp: array_sort_def mset_insert_by)

lemma set_insert_by: "set (insert_by c x ys) = insert x (set ys)"
  by (induction ys) auto

lemma sorted_insert_by_step_number:
  "sorted (map step_number ys) \<Longrightarrow> sorted (map step_number (insert_by by_step_number x ys))"
  by (induction ys) (auto simp: by_step_number_def set_insert_by)

lemma sorted_array_sort: "sorted (map step_number (array_sort by_step_number xs))"
  by (induction xs) (auto simp: array_sort_def sorted_insert_by_step_number)

text \<open>The ordinals of the sorted steps are the sorted ordinals, whatever order they came in.\<close>

lemma ordinals_of_sorted:
  "map step_number (array_sort by_step_number xs) = sort (map step_number xs)"
proof -
  have "mset (map step_number (array_sort by_step_number xs)) = mset (map step_number xs)"
    by (simp add: mset_array_sort)
  then show ?thesis
    using sorted_array_sort [of xs] by (metis properties_for_sort)
qed

lemma ordinals_order_independent:
  assumes "mset ys = mset xs"
  shows "map step_number (array_sort by_step_number ys) =
         map step_number (array_sort by_step_number xs)"
proof -
  have "mset (map step_number ys) = mset (map step_number xs)"
    using assms by simp
  then have "sort (map step_number ys) = sort (map step_number xs)"
    by (metis properties_for_sort sorted_sort mset_sort)
  then show ?thesis by (simp add: ordinals_of_sorted)
qed

text \<open>
  Steps of equal ordinal keep the order storage gave them, so the list itself is fixed by
  the stored steps alone once their ordinals are pairwise different.
\<close>

lemma steps_order_independent:
  assumes "mset ys = mset xs" and "distinct (map step_number xs)"
  shows "array_sort by_step_number ys = array_sort by_step_number xs"
proof -
  have inj: "inj_on step_number (set xs)"
    using assms(2) by (simp add: distinct_map)
  have "set (array_sort by_step_number ys) = set xs"
    and "set (array_sort by_step_number xs) = set xs"
    using assms(1) by (metis mset_array_sort set_mset_mset)+
  then have "inj_on step_number
      (set (array_sort by_step_number ys) \<union> set (array_sort by_step_number xs))"
    using inj by simp
  then show ?thesis
    using ordinals_order_independent [OF assms(1)] by (simp add: inj_on_map_eq_map)
qed

text \<open>
  Steps of one ordinal come out in the order they went in: an element is inserted in front
  of the first one it does not follow, so it passes only elements of smaller ordinal.
\<close>

lemma filter_insert_by:
  "filter (\<lambda>st. step_number st = n) (insert_by by_step_number x ys) =
     (if step_number x = n then [x] else []) @ filter (\<lambda>st. step_number st = n) ys"
  by (induction ys) (auto simp: by_step_number_def)

lemma filter_array_sort:
  "filter (\<lambda>st. step_number st = n) (array_sort by_step_number xs) =
     filter (\<lambda>st. step_number st = n) xs"
  by (induction xs) (simp_all add: array_sort_def filter_insert_by)

lemma sortedSteps_of_field:
  "sortedSteps tc = array_sort by_step_number (case steps tc of None \<Rightarrow> [] | Some xs \<Rightarrow> xs)"
  by (simp add: sortedSteps_def stored_steps_def)

text \<open>
  Claim C6, as the code has it.  The steps the page presents, one executor each and in
  this order, are the steps in the \<open>steps\<close> field of the case sorted by ascending
  \<open>step_number\<close>, and none when the field is missing: a permutation of the stored list,
  sorted by \<open>step_number\<close>, in which steps of equal \<open>step_number\<close> keep the order
  storage gave them.  The sequence of ordinals presented depends on the stored steps only
  and not on the order storage returned them in; the sequence of steps does so whenever the
  ordinals are pairwise different.
\<close>

theorem sortedSteps_sorted_permutation:
  "(steps tc = None \<longrightarrow> sortedSteps tc = [] \<and> execution_section tc = None) \<and>
   (\<forall>xs. steps tc = Some xs \<longrightarrow>
      mset (sortedSteps tc) = mset xs \<and>
      sorted (map step_number (sortedSteps tc)) \<and>
      (\<forall>n. filter (\<lambda>st. step_number st = n) (sortedSteps tc) =
           filter (\<lambda>st. step_number st = n) xs) \<and>
      execution_section tc =
        (if xs = [] then None else Some (map (\<lambda>st. (step_id st, st)) (sortedSteps tc))) \<and>
      (\<forall>tc' ys. steps tc' = Some ys \<and> mset ys = mset xs \<longrightarrow>
         map step_number (sortedSteps tc') = map step_number (sortedSteps tc) \<and>
         (distinct (map step_number xs) \<longrightarrow> sortedSteps tc' = sortedSteps tc)))"
proof (intro conjI allI impI)
  assume "steps tc = None"
  then show "sortedSteps tc = []"
    by (simp add: sortedSteps_of_field array_sort_def)
next
  assume "steps tc = None"
  then show "execution_section tc = None"
    by (simp add: execution_section_def sortedSteps_of_field array_sort_def)
next
  fix xs
  assume "steps tc = Some xs"
  then show "mset (sortedSteps tc) = mset xs"
    by (simp add: sortedSteps_of_field mset_array_sort)
next
  fix xs
  assume "steps tc = Some xs"
  then show "sorted (map step_number (sortedSteps tc))"
    by (simp add: sortedSteps_of_field sorted_array_sort)
next
  fix xs n
  assume "steps tc = Some xs"
  then show "filter (\<lambda>st. step_number st = n) (sortedSteps tc) =
      filter (\<lambda>st. step_number st = n) xs"
    by (simp add: sortedSteps_of_field filter_array_sort)
next
  fix xs
  assume f: "steps tc = Some xs"
  then have "mset (sortedSteps tc) = mset xs"
    by (simp add: sortedSteps_of_field mset_array_sort)
  then have "sortedSteps tc = [] \<longleftrightarrow> xs = []"
    by (metis mset_zero_iff)
  then show "execution_section tc =
      (if xs = [] then None else Some (map (\<lambda>st. (step_id st, st)) (sortedSteps tc)))"
    by (simp add: execution_section_def TestCaseExecutor_def)
next
  fix xs and tc' :: testCase and ys
  assume f: "steps tc = Some xs" and g: "steps tc' = Some ys \<and> mset ys = mset xs"
  have "map step_number (array_sort by_step_number ys) =
      map step_number (array_sort by_step_number xs)"
    using g by (intro ordinals_order_independent) simp
  then show "map step_number (sortedSteps tc') = map step_number (sortedSteps tc)"
    using f g by (simp add: sortedSteps_of_field)
next
  fix xs and tc' :: testCase and ys
  assume f: "steps tc = Some xs" and g: "steps tc' = Some ys \<and> mset ys = mset xs"
    and d: "distinct (map step_number xs)"
  have "array_sort by_step_number ys = array_sort by_step_number xs"
    using g d by (intro steps_order_independent) simp_all
  then show "sortedSteps tc' = sortedSteps tc"
    using f g by (simp add: sortedSteps_of_field)
qed

text \<open>Three steps returned as 3, 1, 2 and as 2, 3, 1 are presented as 1, 2, 3 both times.\<close>

theorem sortedSteps_witness:
  "sortedSteps (mk_case [mk_step 12 2 None, mk_step 13 3 None, mk_step 11 1 None]) =
   sortedSteps (mk_case [mk_step 13 3 None, mk_step 11 1 None, mk_step 12 2 None]) \<and>
   map step_id (sortedSteps (mk_case [mk_step 13 3 None, mk_step 11 1 None, mk_step 12 2 None]))
     = [11, 12, 13]"
proof -
  let ?xs = "[mk_step 13 3 None, mk_step 11 1 None, mk_step 12 2 None]"
  let ?ys = "[mk_step 12 2 None, mk_step 13 3 None, mk_step 11 1 None]"
  have a: "steps (mk_case ?xs) = Some ?xs" and b: "steps (mk_case ?ys) = Some ?ys"
    by (simp_all add: mk_case_def)
  have m: "mset ?ys = mset ?xs"
    by simp
  have d: "distinct (map step_number ?xs)"
    by (simp add: mk_step_def)
  have same: "sortedSteps (mk_case ?ys) = sortedSteps (mk_case ?xs)"
    using sortedSteps_sorted_permutation [of "mk_case ?xs"] a b m d by blast
  have "map step_id (sortedSteps (mk_case ?xs)) = [11, 12, 13]"
    by (simp add: sortedSteps_def stored_steps_def mk_case_def mk_step_def array_sort_def
        by_step_number_def)
  then show ?thesis
    using same by simp
qed

text \<open>
  The claim as written makes the presented sequence independent of the order in which
  storage returns the steps.  Two steps that share the ordinal 1 are presented in the
  order storage returned them, so the two orders of storage give two different sequences.
\<close>

theorem equal_ordinals_counterexample:
  "mset [mk_step 22 1 None, mk_step 21 1 None] = mset [mk_step 21 1 None, mk_step 22 1 None] \<and>
   map step_id (sortedSteps (mk_case [mk_step 21 1 None, mk_step 22 1 None])) = [21, 22] \<and>
   map step_id (sortedSteps (mk_case [mk_step 22 1 None, mk_step 21 1 None])) = [22, 21] \<and>
   sortedSteps (mk_case [mk_step 22 1 None, mk_step 21 1 None]) \<noteq>
     sortedSteps (mk_case [mk_step 21 1 None, mk_step 22 1 None])"
proof -
  have a: "map step_id (sortedSteps (mk_case [mk_step 21 1 None, mk_step 22 1 None])) = [21, 22]"
    by (simp add: sortedSteps_def stored_steps_def mk_case_def mk_step_def array_sort_def
        by_step_number_def)
  have b: "map step_id (sortedSteps (mk_case [mk_step 22 1 None, mk_step 21 1 None])) = [22, 21]"
    by (simp add: sortedSteps_def stored_steps_def mk_case_def mk_step_def array_sort_def
        by_step_number_def)
  have "map step_id (sortedSteps (mk_case [mk_step 22 1 None, mk_step 21 1 None])) \<noteq>
      map step_id (sortedSteps (mk_case [mk_step 21 1 None, mk_step 22 1 None]))"
    unfolding a b by simp
  then have "sortedSteps (mk_case [mk_step 22 1 None, mk_step 21 1 None]) \<noteq>
     sortedSteps (mk_case [mk_step 21 1 None, mk_step 22 1 None])"
    by metis
  moreover have "mset [mk_step 22 1 None, mk_step 21 1 None] =
      mset [mk_step 21 1 None, mk_step 22 1 None]"
    by simp
  ultimately show ?thesis
    using a b by simp
qed

text \<open>With no steps the page shows its placeholder; otherwise every stored step is shown.\<close>

lemma execution_section_all_steps:
  "execution_section tc = None \<longleftrightarrow> stored_steps tc = []"
  "execution_section tc = Some ps \<Longrightarrow> mset (map snd ps) = mset (stored_steps tc)"
proof -
  have e: "sortedSteps tc = [] \<longleftrightarrow> stored_steps tc = []"
    by (metis mset_array_sort mset_zero_iff sortedSteps_def)
  show "execution_section tc = None \<longleftrightarrow> stored_steps tc = []"
    using e by (simp add: execution_section_def)
  assume "execution_section tc = Some ps"
  then have "map snd ps = sortedSteps tc"
    by (auto simp: execution_section_def TestCaseExecutor_def comp_def split: if_splits)
  then show "mset (map snd ps) = mset (stored_steps tc)"
    by (simp add: sortedSteps_def mset_array_sort)
qed


section \<open>Properties of the step executor\<close>

subsection \<open>The socket once closed\<close>

lemma closed_ignores_message: "\<not> socket_open s \<Longrightarrow> fire (WsMessage f) s = s"
  by (simp add: fire_def)

lemma closed_ignores_all: "\<not> socket_open s \<Longrightarrow> receive fs s = s"
  by (induction fs) (simp_all add: receive_def closed_ignores_message)

lemma nonterminal_keeps_open:
  "socket_open s \<Longrightarrow> \<not> is_terminal f \<Longrightarrow> socket_open (fire (WsMessage f) s)"
  by (cases f) (auto simp: fire_def onmessage_def is_terminal_def socket_open_def)

lemma receive_append: "receive (fs @ gs) s = receive gs (receive fs s)"
  by (simp add: receive_def)

lemma receive_keeps_open:
  "socket_open s \<Longrightarrow> \<forall>f \<in> set fs. \<not> is_terminal f \<Longrightarrow> socket_open (receive fs s)"
proof (induction fs arbitrary: s)
  case Nil
  then show ?case by (simp add: receive_def)
next
  case (Cons f fs)
  then have "socket_open (fire (WsMessage f) s)"
    by (simp add: nonterminal_keeps_open)
  then have "socket_open (receive fs (fire (WsMessage f) s))"
    using Cons by simp
  then show ?case by (simp add: receive_def)
qed

lemma terminal_closes:
  "socket_open s \<Longrightarrow> is_terminal f \<Longrightarrow> \<not> socket_open (fire (WsMessage f) s)"
  by (cases f)
     (auto simp: fire_def onmessage_def is_terminal_def socket_open_def websocket_close_def
       split: option.splits)

text \<open>No handler of the run ever sends anything on the socket.\<close>

lemma sent_unchanged: "map_option ws_sent (wsRef (fire e s)) = map_option ws_sent (wsRef s)"
  by (cases e)
     (auto simp: fire_def onmessage_def onerror_def onclose_def websocket_close_def
       split: frame.splits option.splits)

lemma sent_unchanged_fold:
  "map_option ws_sent (wsRef (fold fire es s)) = map_option ws_sent (wsRef s)"
  by (induction es arbitrary: s) (simp_all add: sent_unchanged)







subsection \<open>Dispatch on the message type\<close>

text \<open>
  Claim C4, as the code has it.  The handler looks at the \<open>type\<close> field of the parsed
  message and at nothing else to choose what to do: each of \<open>status_update\<close>, \<open>progress\<close>,
  \<open>screenshot\<close>, \<open>execution_complete\<close> and \<open>execution_error\<close> has its own effect, and a
  message of any other type changes nothing.  A \<open>screenshot\<close> message sets the live view to
  a \<open>data:\<close> URL that declares its \<open>image\<close> field to be base64-encoded PNG data and
  carries the field as it came.  A \<open>progress\<close> message sets the progress text, and no other
  part of the state, to its \<open>message\<close> field when that is a non-empty text, otherwise to
  its \<open>action\<close> field, and to the empty text when there is no action either: a message
  that is missing and a message that is empty both give way to the action.
\<close>

theorem onmessage_dispatches_on_type:
  "(m_type d \<notin> {Some ''status_update'', Some ''progress'', Some ''screenshot'',
                  Some ''execution_complete'', Some ''execution_error''}
      \<longrightarrow> onmessage (Object d) s = Inr s) \<and>
   (m_type d = Some ''status_update''
      \<longrightarrow> onmessage (Object d) s =
            Inr (s\<lparr>onStatusUpdate_calls := onStatusUpdate_calls s @ [m_status d]\<rparr>)) \<and>
   (m_type d = Some ''screenshot''
      \<longrightarrow> onmessage (Object d) s =
            Inr (s\<lparr>screenshot :=
                     Some (''data:image/png;base64,'' @
                           (case m_image d of None \<Rightarrow> ''undefined'' | Some img \<Rightarrow> img))\<rparr>)) \<and>
   (m_type d = Some ''progress''
      \<longrightarrow> onmessage (Object d) s =
            Inr (s\<lparr>progress :=
                     (case m_message d of
                        None \<Rightarrow> (case m_action d of None \<Rightarrow> [] | Some a \<Rightarrow> a)
                      | Some m \<Rightarrow>
                          (if m = [] then (case m_action d of None \<Rightarrow> [] | Some a \<Rightarrow> a)
                           else m))\<rparr>)) \<and>
   (m_type d = Some ''execution_complete''
      \<longrightarrow> onmessage (Object d) s =
            Inr (websocket_close
                   (s\<lparr>isRunning := False, progress := [],
                      onStatusUpdate_calls := onStatusUpdate_calls s @ [m_status d]\<rparr>))) \<and>
   (m_type d = Some ''execution_error''
      \<longrightarrow> onmessage (Object d) s =
            Inr (websocket_close
                   (s\<lparr>isRunning := False, progress := [],
                      alerts := alerts s @
                        [''Execution error: '' @
                         (case m_error d of None \<Rightarrow> ''undefined'' | Some e \<Rightarrow> e)]\<rparr>)))"
  by (auto simp: onmessage_def js_or_def js_or_str_def template_str_def truthy_opt_def truthy_def
      split: option.splits)

text \<open>
  A screenshot becomes a PNG data URL that ends in the image sent; a progress message that
  carries only an action shows the action, one that carries both shows the message; a
  frame of another type is ignored.
\<close>

theorem onmessage_dispatch_witness:
  "onmessage (Object ((msg ''screenshot'')\<lparr>m_image := Some ''iVBORw0KGgo=''\<rparr>)) idle_executor =
     Inr (idle_executor\<lparr>screenshot := Some ''data:image/png;base64,iVBORw0KGgo=''\<rparr>) \<and>
   onmessage (Object ((msg ''progress'')\<lparr>m_action := Some ''click''\<rparr>)) idle_executor =
     Inr (idle_executor\<lparr>progress := ''click''\<rparr>) \<and>
   onmessage (Object ((msg ''progress'')\<lparr>m_message := Some ''Clicking login'',
       m_action := Some ''click''\<rparr>)) idle_executor =
     Inr (idle_executor\<lparr>progress := ''Clicking login''\<rparr>) \<and>
   onmessage (Object ((msg ''generation_progress'')\<lparr>m_message := Some ''50%''\<rparr>))
     idle_executor = Inr idle_executor"
proof -
  let ?shot = "(msg ''screenshot'')\<lparr>m_image := Some ''iVBORw0KGgo=''\<rparr>"
  let ?act = "(msg ''progress'')\<lparr>m_action := Some ''click''\<rparr>"
  let ?both = "(msg ''progress'')\<lparr>m_message := Some ''Clicking login'',
       m_action := Some ''click''\<rparr>"
  let ?other = "(msg ''generation_progress'')\<lparr>m_message := Some ''50%''\<rparr>"
  have "m_type ?shot = Some ''screenshot''" and "m_image ?shot = Some ''iVBORw0KGgo=''"
    by (simp_all add: msg_def)
  then have shot: "onmessage (Object ?shot) idle_executor =
      Inr (idle_executor\<lparr>screenshot := Some ''data:image/png;base64,iVBORw0KGgo=''\<rparr>)"
    using onmessage_dispatches_on_type [of ?shot idle_executor] by simp
  have "m_type ?act = Some ''progress''" and "m_message ?act = None"
    and "m_action ?act = Some ''click''"
    by (simp_all add: msg_def)
  then have act: "onmessage (Object ?act) idle_executor =
      Inr (idle_executor\<lparr>progress := ''click''\<rparr>)"
    using onmessage_dispatches_on_type [of ?act idle_executor] by simp
  have "m_type ?both = Some ''progress''" and "m_message ?both = Some ''Clicking login''"
    by (simp_all add: msg_def)
  then have both: "onmessage (Object ?both) idle_executor =
      Inr (idle_executor\<lparr>progress := ''Clicking login''\<rparr>)"
    using onmessage_dispatches_on_type [of ?both idle_executor] by simp
  have "m_type ?other \<notin> {Some ''status_update'', Some ''progress'', Some ''screenshot'',
                  Some ''execution_complete'', Some ''execution_error''}"
    by (simp add: msg_def)
  then have other: "onmessage (Object ?other) idle_executor = Inr idle_executor"
    using onmessage_dispatches_on_type [of ?other idle_executor] by blast
  show ?thesis
    using shot act both other by simp
qed

text \<open>
  The claim as written shows the \<open>action\<close> field only when \<open>message\<close> is absent.  A
  progress message whose \<open>message\<close> field is there and is the empty text shows its
  \<open>action\<close> as well, not the message it carries.
\<close>

theorem empty_message_counterexample:
  "m_message ((msg ''progress'')\<lparr>m_message := Some [], m_action := Some ''click''\<rparr>) = Some [] \<and>
   onmessage (Object ((msg ''progress'')\<lparr>m_message := Some [], m_action := Some ''click''\<rparr>))
     idle_executor = Inr (idle_executor\<lparr>progress := ''click''\<rparr>) \<and>
   progress (idle_executor\<lparr>progress := ''click''\<rparr>) \<noteq> []"
  by (simp add: onmessage_def msg_def js_or_def js_or_str_def truthy_opt_def truthy_def)

text \<open>Frames that are not objects: the two that throw, and the one without a type.\<close>

lemma onmessage_not_object:
  "onmessage NotJson s = Inl SyntaxError"
  "onmessage JsonNull s = Inl TypeError"
  "onmessage NotAnObject s = Inr s"
  by (simp_all add: onmessage_def)

lemma fire_not_object:
  "f \<in> {NotJson, JsonNull, NotAnObject} \<Longrightarrow> fire (WsMessage f) s = s"
  by (auto simp: fire_def onmessage_def)

subsection \<open>The end of a run\<close>




section \<open>Properties of the execution session\<close>

subsection \<open>The iteration over the commands\<close>

text \<open>
  The events of the iteration carry strictly increasing sequence numbers, all of them from
  the first number on and below the first number plus the number of events.
\<close>

lemma run_commands_seq:
  "run_commands drv sid n i cs = (evs, calls, e) \<Longrightarrow>
   sorted_wrt (<) (map seq evs) \<and> (\<forall>ev \<in> set evs. n \<le> seq ev \<and> seq ev < n + length evs)"
proof (induction cs arbitrary: n i evs calls e)
  case Nil
  then show ?case by simp
next
  case (Cons c cs)
  show ?case
  proof (cases "drv i c")
    case (Ok img)
    show ?thesis
    proof (cases img)
      case None
      obtain evs' calls' e' where r: "run_commands drv sid (n + 1) (i + 1) cs = (evs', calls', e')"
        by (metis prod_cases3)
      then have "evs = \<lparr>ev_step = sid, seq = n, kind = Progress (action c)\<rparr> # evs'"
        using Cons.prems Ok None by (simp add: Let_def)
      then show ?thesis
        using Cons.IH [OF r] by fastforce
    next
      case (Some im)
      obtain evs' calls' e' where r: "run_commands drv sid (n + 2) (i + 1) cs = (evs', calls', e')"
        by (metis prod_cases3)
      then have "evs = \<lparr>ev_step = sid, seq = n, kind = Progress (action c)\<rparr> #
          \<lparr>ev_step = sid, seq = n + 1, kind = ScreenshotTaken im\<rparr> # evs'"
        using Cons.prems Ok Some by (simp add: Let_def)
      then show ?thesis
        using Cons.IH [OF r] by fastforce
    qed
  next
    case (Failed reason)
    then show ?thesis using Cons.prems by (auto simp: Let_def)
  next
    case (Crashed reason)
    then show ?thesis using Cons.prems by (auto simp: Let_def)
  qed
qed

lemma run_commands_not_terminal:
  "run_commands drv sid n i cs = (evs, calls, e) \<Longrightarrow> \<forall>ev \<in> set evs. \<not> terminal_kind (kind ev)"
proof (induction cs arbitrary: n i evs calls e)
  case Nil
  then show ?case by simp
next
  case (Cons c cs)
  show ?case
  proof (cases "drv i c")
    case (Ok img)
    show ?thesis
    proof (cases img)
      case None
      obtain evs' calls' e' where r: "run_commands drv sid (n + 1) (i + 1) cs = (evs', calls', e')"
        by (metis prod_cases3)
      then have "evs = \<lparr>ev_step = sid, seq = n, kind = Progress (action c)\<rparr> # evs'"
        using Cons.prems Ok None by (simp add: Let_def)
      then show ?thesis
        using Cons.IH [OF r] by (simp add: terminal_kind_def)
    next
      case (Some im)
      obtain evs' calls' e' where r: "run_commands drv sid (n + 2) (i + 1) cs = (evs', calls', e')"
        by (metis prod_cases3)
      then have "evs = \<lparr>ev_step = sid, seq = n, kind = Progress (action c)\<rparr> #
          \<lparr>ev_step = sid, seq = n + 1, kind = ScreenshotTaken im\<rparr> # evs'"
        using Cons.prems Ok Some by (simp add: Let_def)
      then show ?thesis
        using Cons.IH [OF r] by (simp add: terminal_kind_def)
    qed
  next
    case (Failed reason)
    then show ?thesis using Cons.prems by (auto simp: Let_def terminal_kind_def)
  next
    case (Crashed reason)
    then show ?thesis using Cons.prems by (auto simp: Let_def terminal_kind_def)
  qed
qed

text \<open>The driver is given the commands of the sequence in order, and nothing else.\<close>

lemma run_commands_calls:
  "run_commands drv sid n i cs = (evs, calls, e) \<Longrightarrow>
   calls = take (length calls) cs \<and> (e = AllSucceeded \<longrightarrow> calls = cs)"
proof (induction cs arbitrary: n i evs calls e)
  case Nil
  then show ?case by simp
next
  case (Cons c cs)
  show ?case
  proof (cases "drv i c")
    case (Ok img)
    obtain m where r0: "m = (case img of None \<Rightarrow> n + 1 | Some im \<Rightarrow> n + 2)"
      by simp
    obtain evs' calls' e' where r: "run_commands drv sid m (i + 1) cs = (evs', calls', e')"
      by (metis prod_cases3)
    then have "calls = c # calls' \<and> e = e'"
      using Cons.prems Ok r0 by (cases img) (simp_all add: Let_def)
    then show ?thesis
      using Cons.IH [OF r] by auto
  next
    case (Failed reason)
    then show ?thesis using Cons.prems by (auto simp: Let_def)
  next
    case (Crashed reason)
    then show ?thesis using Cons.prems by (auto simp: Let_def)
  qed
qed

subsection \<open>The events of a session\<close>

text \<open>
  Every session ends in one of three shapes: the single error event of a run that never
  started, or the events of the iteration followed by one closing event that takes the
  next sequence number.
\<close>

lemma execute_step_shape:
  "(\<exists>m. events (execute_step pol drv acq rq) =
          [\<lparr>ev_step = req_step rq, seq = 1, kind = ExecutionError m\<rparr>] \<and>
        driver_calls (execute_step pol drv acq rq) = [] \<and>
        \<not> adapter_acquired (execute_step pol drv acq rq) \<and>
        final_state (execute_step pol drv acq rq) \<noteq> Completed) \<or>
   (\<exists>cmds evs calls e k.
        effective_sequence pol rq = Inr cmds \<and>
        run_commands drv (req_step rq) 1 0 cmds = (evs, calls, e) \<and>
        terminal_kind k \<and>
        events (execute_step pol drv acq rq) =
          evs @ [\<lparr>ev_step = req_step rq, seq = 1 + length evs, kind = k\<rparr>] \<and>
        driver_calls (execute_step pol drv acq rq) = calls \<and>
        (final_state (execute_step pol drv acq rq) = Completed \<longrightarrow>
           k = ExecutionComplete ''passed'' None))"
proof (cases "effective_sequence pol rq")
  case (Inl err)
  then show ?thesis by (simp add: execute_step_def)
next
  case (Inr cmds)
  show ?thesis
  proof (cases acq)
    case False
    then show ?thesis using Inr by (simp add: execute_step_def)
  next
    case True
    obtain evs calls e where r: "run_commands drv (req_step rq) 1 0 cmds = (evs, calls, e)"
      by (metis prod_cases3)
    show ?thesis
      using Inr True r
      by (cases e) (simp_all add: execute_step_def Let_def terminal_kind_def)
  qed
qed

lemma run_commands_announced:
  "run_commands drv sid n i cs = (evs, calls, e) \<Longrightarrow> announced_actions evs = map action calls"
proof (induction cs arbitrary: n i evs calls e)
  case Nil
  then show ?case by (simp add: announced_actions_def map_filter_simps)
next
  case (Cons c cs)
  show ?case
  proof (cases "drv i c")
    case (Ok img)
    show ?thesis
    proof (cases img)
      case None
      obtain evs' calls' e' where r: "run_commands drv sid (n + 1) (i + 1) cs = (evs', calls', e')"
        by (metis prod_cases3)
      then have "evs = \<lparr>ev_step = sid, seq = n, kind = Progress (action c)\<rparr> # evs'"
        and "calls = c # calls'"
        using Cons.prems Ok None by (simp_all add: Let_def)
      then show ?thesis
        using Cons.IH [OF r] by (simp add: announced_actions_def map_filter_simps)
    next
      case (Some im)
      obtain evs' calls' e' where r: "run_commands drv sid (n + 2) (i + 1) cs = (evs', calls', e')"
        by (metis prod_cases3)
      then have "evs = \<lparr>ev_step = sid, seq = n, kind = Progress (action c)\<rparr> #
          \<lparr>ev_step = sid, seq = n + 1, kind = ScreenshotTaken im\<rparr> # evs'"
        and "calls = c # calls'"
        using Cons.prems Ok Some by (simp_all add: Let_def)
      then show ?thesis
        using Cons.IH [OF r] by (simp add: announced_actions_def map_filter_simps)
    qed
  next
    case (Failed reason)
    then show ?thesis
      using Cons.prems by (auto simp: Let_def announced_actions_def map_filter_simps)
  next
    case (Crashed reason)
    then show ?thesis
      using Cons.prems by (auto simp: Let_def announced_actions_def map_filter_simps)
  qed
qed

lemma announced_actions_snoc_terminal:
  "terminal_kind k \<Longrightarrow>
   announced_actions (evs @ [\<lparr>ev_step = sid, seq = n, kind = k\<rparr>]) = announced_actions evs"
  by (cases k) (simp_all add: announced_actions_def map_filter_def terminal_kind_def)

text \<open>
  Claim C3, against the session written from the specification.  Within one step-level
  session the sequence numbers of the events are strictly increasing in the order the
  events are emitted; the \<open>progress\<close> events announce the commands in the order they
  are dispatched to the driver; the terminal event is the last event of the session and
  the only terminal one, and no event carries a larger sequence number; for a run that
  completes, the last event is \<open>execution_complete\<close> with \<open>passed\<close> and its sequence
  number is the maximum of the run.
\<close>

theorem session_events_in_sequence:
  fixes pol drv acq rq
  defines "evs \<equiv> events (execute_step pol drv acq rq)"
  shows "sorted_wrt (<) (map seq evs) \<and>
    announced_actions evs = map action (driver_calls (execute_step pol drv acq rq)) \<and>
    evs \<noteq> [] \<and> terminal_kind (kind (last evs)) \<and>
    (\<forall>ev \<in> set (butlast evs). \<not> terminal_kind (kind ev)) \<and>
    (\<forall>ev \<in> set evs. seq ev \<le> seq (last evs)) \<and>
    (final_state (execute_step pol drv acq rq) = Completed \<longrightarrow>
       kind (last evs) = ExecutionComplete ''passed'' None \<and>
       seq (last evs) = Max (seq ` set evs))"
proof -
  consider
    (refused) m where "evs = [\<lparr>ev_step = req_step rq, seq = 1, kind = ExecutionError m\<rparr>]"
      "driver_calls (execute_step pol drv acq rq) = []"
      "final_state (execute_step pol drv acq rq) \<noteq> Completed"
  | (ran) cmds body calls e k where
      "run_commands drv (req_step rq) 1 0 cmds = (body, calls, e)" "terminal_kind k"
      "evs = body @ [\<lparr>ev_step = req_step rq, seq = 1 + length body, kind = k\<rparr>]"
      "driver_calls (execute_step pol drv acq rq) = calls"
      "final_state (execute_step pol drv acq rq) = Completed \<longrightarrow>
         k = ExecutionComplete ''passed'' None"
    using execute_step_shape [of pol drv acq rq] unfolding evs_def by blast
  then show ?thesis
  proof cases
    case refused
    then show ?thesis
      by (simp add: terminal_kind_def announced_actions_def map_filter_simps)
  next
    case ran
    have inc: "sorted_wrt (<) (map seq body)"
      and bound: "\<forall>ev \<in> set body. 1 \<le> seq ev \<and> seq ev < 1 + length body"
      using run_commands_seq [OF ran(1)] by simp_all
    have quiet: "\<forall>ev \<in> set body. \<not> terminal_kind (kind ev)"
      using run_commands_not_terminal [OF ran(1)] .
    have sorted: "sorted_wrt (<) (map seq evs)"
      using inc bound by (auto simp: ran(3) sorted_wrt_append)
    have ann: "announced_actions evs = map action (driver_calls (execute_step pol drv acq rq))"
      using run_commands_announced [OF ran(1)] ran(2)
      by (simp add: ran(3) ran(4) announced_actions_snoc_terminal)
    have lst: "last evs = \<lparr>ev_step = req_step rq, seq = 1 + length body, kind = k\<rparr>"
      and bl: "butlast evs = body"
      by (simp_all add: ran(3))
    have le: "\<forall>ev \<in> set evs. seq ev \<le> seq (last evs)"
      using bound by (auto simp: ran(3))
    have "seq (last evs) \<in> seq ` set evs"
      by (simp add: ran(3))
    then have mx: "seq (last evs) = Max (seq ` set evs)"
      using le by (intro Max_eqI [symmetric]) auto
    show ?thesis
      using sorted ann lst bl quiet le mx ran(2) ran(5) by (simp add: ran(3))
  qed
qed

lemma sample_session:
  "execute_step sample_policy sample_driver True sample_request =
     \<lparr>events =
        [\<lparr>ev_step = 5, seq = 1, kind = Progress TypeText\<rparr>,
         \<lparr>ev_step = 5, seq = 2, kind = Progress Navigate\<rparr>,
         \<lparr>ev_step = 5, seq = 3, kind = ScreenshotTaken ''iVBORw0KGgo=''\<rparr>,
         \<lparr>ev_step = 5, seq = 4, kind = Progress Click\<rparr>,
         \<lparr>ev_step = 5, seq = 5, kind = ExecutionComplete ''passed'' None\<rparr>],
      driver_calls =
        [\<lparr>action = TypeText, target = None, input_value = None, cmd_description = None\<rparr>,
         \<lparr>action = Navigate, target = None, input_value = None, cmd_description = None\<rparr>,
         \<lparr>action = Click, target = None, input_value = None, cmd_description = None\<rparr>],
      adapter_acquired = True, final_state = Completed\<rparr>"
  by (simp add: execute_step_def effective_sequence_def validate_def sample_policy_def
      sample_request_def sample_driver_def validate_element_def recognize_def Let_def)

text \<open>
  A login prefix of one command and a target of two, the first of which captures an image:
  five events numbered 1 to 5, the last of them the completion.
\<close>

theorem session_events_witness:
  "seq (last (events (execute_step sample_policy sample_driver True sample_request))) =
     Max (seq ` set (events (execute_step sample_policy sample_driver True sample_request))) \<and>
   map seq (events (execute_step sample_policy sample_driver True sample_request)) =
     [1, 2, 3, 4, 5] \<and>
   kind (last (events (execute_step sample_policy sample_driver True sample_request))) =
     ExecutionComplete ''passed'' None"
proof -
  have "final_state (execute_step sample_policy sample_driver True sample_request) = Completed"
    by (simp add: sample_session)
  then have "kind (last (events (execute_step sample_policy sample_driver True sample_request)))
      = ExecutionComplete ''passed'' None \<and>
    seq (last (events (execute_step sample_policy sample_driver True sample_request))) =
     Max (seq ` set (events (execute_step sample_policy sample_driver True sample_request)))"
    using session_events_in_sequence [of sample_policy sample_driver True sample_request]
    by blast
  moreover have "map seq (events (execute_step sample_policy sample_driver True sample_request))
      = [1, 2, 3, 4, 5]"
    by (simp add: sample_session)
  ultimately show ?thesis by blast
qed

section \<open>Step status values and their styles\<close>







section \<open>What is executed, and how a run is requested\<close>

subsection \<open>The request of the client\<close>

text \<open>
  The URL of the socket is built from the page's location and the step's id; no other
  field of the step enters it.
\<close>

lemma wsUrl_only_id: "step_id st' = step_id st \<Longrightarrow> wsUrl loc st' = wsUrl loc st"
  by (simp add: wsUrl_def)

lemma handleRunStep_request:
  "wsRef (handleRunStep loc st s) =
     Some \<lparr>ws_url = wsUrl loc st, ws_sent = [], close_called = False\<rparr>"
  by (simp add: handleRunStep_def)

lemma nothing_sent_during_run:
  "map_option ws_sent (wsRef (fold fire es (handleRunStep loc st s))) = Some []"
  by (simp add: sent_unchanged_fold handleRunStep_def)

lemma no_run_without_commands:
  "\<not> truthy_opt (selenium_script_json st) \<Longrightarrow> click_run_step loc st s = s"
  by (simp add: click_run_step_def run_button_shown_def)

lemma dev_url: "wsUrl dev_location (runnable_step 5) = ''ws://localhost:8000/ws/execute-step/5''"
  by code_simp

subsection \<open>Validation before execution\<close>

lemma indicator_fails_sequence:
  "code_indicator pol (target_raw rq) \<Longrightarrow> effective_sequence pol rq = Inl ValidationError"
  by (simp add: effective_sequence_def validate_def)

lemma driver_calls_prefix:
  "effective_sequence pol rq = Inr cmds \<Longrightarrow>
   driver_calls (execute_step pol drv acq rq) =
     take (length (driver_calls (execute_step pol drv acq rq))) cmds"
proof (cases acq)
  case False
  assume "effective_sequence pol rq = Inr cmds"
  then show ?thesis using False by (simp add: execute_step_def)
next
  case True
  assume es: "effective_sequence pol rq = Inr cmds"
  obtain evs calls e where r: "run_commands drv (req_step rq) 1 0 cmds = (evs, calls, e)"
    by (metis prod_cases3)
  then have "driver_calls (execute_step pol drv acq rq) = calls"
    using es True by (cases e) (simp_all add: execute_step_def Let_def)
  then show ?thesis
    using run_commands_calls [OF r] by simp
qed

text \<open>
  Claim C1.  The server half is stated against the session written from the
  specification: when the raw text of the stored command payload of the step holds a
  source-code indicator, validation yields a \<open>ValidationError\<close> and the session ends with
  an error event, without acquiring the driver adapter and without a single driver call.
  What a session hands to the driver is always an initial part of the validated command
  sequence, so only the structured command array is ever executed.  The client half is
  read off the component: without a (non-empty) \<open>selenium_script_json\<close> a click cannot
  start a run; the run request is the socket's URL, which is built from the step id and
  the page location alone and is the same whatever the script texts of the step are; and
  nothing is sent on the socket.
\<close>

theorem code_indicator_never_executes:
  assumes "code_indicator pol (target_raw rq)"
  shows "validate pol (target_raw rq) = Inl ValidationError \<and>
    driver_calls (execute_step pol drv acq rq) = [] \<and>
    \<not> adapter_acquired (execute_step pol drv acq rq) \<and>
    final_state (execute_step pol drv acq rq) = FailedState \<and>
    events (execute_step pol drv acq rq) =
      [\<lparr>ev_step = req_step rq, seq = 1, kind = ExecutionError ''invalid stored commands''\<rparr>] \<and>
    (\<forall>rq' cmds. effective_sequence pol rq' = Inr cmds \<longrightarrow>
       driver_calls (execute_step pol drv acq rq') =
         take (length (driver_calls (execute_step pol drv acq rq'))) cmds) \<and>
    (\<not> truthy_opt (selenium_script_json st) \<longrightarrow> click_run_step loc st s = s) \<and>
    wsRef (handleRunStep loc st s) =
      Some \<lparr>ws_url = wsUrl loc st, ws_sent = [], close_called = False\<rparr> \<and>
    wsUrl loc (st\<lparr>selenium_script := py, selenium_script_json := js\<rparr>) = wsUrl loc st \<and>
    (\<forall>es. map_option ws_sent (wsRef (fold fire es (handleRunStep loc st s))) = Some [])"
proof -
  have "validate pol (target_raw rq) = Inl ValidationError"
    using assms by (simp add: validate_def)
  moreover have "execute_step pol drv acq rq =
      \<lparr>events = [\<lparr>ev_step = req_step rq, seq = 1,
                   kind = ExecutionError ''invalid stored commands''\<rparr>],
       driver_calls = [], adapter_acquired = False, final_state = FailedState\<rparr>"
    using indicator_fails_sequence [OF assms] by (simp add: execute_step_def)
  moreover have "wsUrl loc (st\<lparr>selenium_script := py, selenium_script_json := js\<rparr>) = wsUrl loc st"
    by (simp add: wsUrl_def)
  ultimately show ?thesis
    using driver_calls_prefix no_run_without_commands handleRunStep_request
      nothing_sent_during_run
    by simp
qed

text \<open>
  Scenario C of the specification: the stored payload is Python text.  The session ends
  with the error event alone and the driver is never called.
\<close>

theorem code_indicator_witness:
  "driver_calls (execute_step sample_policy sample_driver True scripted_request) = [] \<and>
   events (execute_step sample_policy sample_driver True scripted_request) =
     [\<lparr>ev_step = 7, seq = 1, kind = ExecutionError ''invalid stored commands''\<rparr>] \<and>
   click_run_step dev_location ((runnable_step 7)\<lparr>selenium_script_json := None\<rparr>) idle_executor
     = idle_executor"
proof -
  have ind: "code_indicator sample_policy (target_raw scripted_request)"
    by (simp add: sample_policy_def scripted_request_def)
  have empty: "\<not> truthy_opt (selenium_script_json ((runnable_step 7)\<lparr>selenium_script_json := None\<rparr>))"
    by (simp add: truthy_opt_def)
  have rq: "req_step scripted_request = 7"
    by (simp add: scripted_request_def)
  show ?thesis
    using code_indicator_never_executes [OF ind, of sample_driver True
        "(runnable_step 7)\<lparr>selenium_script_json := None\<rparr>" dev_location idle_executor]
      empty rq
    by simp
qed

subsection \<open>Running one step\<close>

text \<open>
  A session that completes has given the driver the whole effective sequence.
\<close>

lemma completed_calls_all:
  assumes "effective_sequence pol rq = Inr cmds"
    and "final_state (execute_step pol drv acq rq) = Completed"
  shows "driver_calls (execute_step pol drv acq rq) = cmds"
proof (cases acq)
  case False
  then show ?thesis
    using assms by (simp add: execute_step_def)
next
  case True
  obtain evs calls e where r: "run_commands drv (req_step rq) 1 0 cmds = (evs, calls, e)"
    by (metis prod_cases3)
  have "e = AllSucceeded \<and> driver_calls (execute_step pol drv acq rq) = calls"
    using assms True r by (cases e) (simp_all add: execute_step_def Let_def)
  then show ?thesis
    using run_commands_calls [OF r] by simp
qed

text \<open>
  Claim C5, as the code has it.  A click on the Run Step button, when the button is there
  and no run is going on, starts a run: it opens a WebSocket whose URL is \<open>ws:\<close> or
  \<open>wss:\<close>, the page's host with port 5173 replaced by 8000, the path
  \<open>/ws/execute-step/\<close> and the decimal id of the step, clears the live view and marks the
  step as running.  It sends no message on that socket, neither on opening it nor in any
  handler of the run: the step id travels in the URL.  On the server, as the specification
  describes it, a session whose stored commands validate gives the driver the commands of
  the login step followed by the step's own when the target is not the login step, and the
  step's own alone when it is: always an initial part of that sequence, and all of it when
  the run completes.
\<close>

theorem run_step_request_in_url:
  assumes "run_button_shown st s" and "\<not> isRunning s"
  shows
   "click_run_step loc st s =
      s\<lparr>isRunning := True, screenshot := None, progress := [],
        wsRef := Some \<lparr>ws_url = (if protocol loc = ''https:'' then ''wss:'' else ''ws:'') @ ''//'' @
                                replace_first (host loc) '':5173'' '':8000'' @
                                ''/ws/execute-step/'' @ string_of_nat (step_id st),
                      ws_sent = [], close_called = False\<rparr>\<rparr> \<and>
    (\<forall>es. map_option ws_sent (wsRef (fold fire es (click_run_step loc st s))) = Some []) \<and>
    (\<forall>pol drv rq lg own.
       validate pol (login_raw rq) = Inr lg \<and> validate pol (target_raw rq) = Inr own \<longrightarrow>
       driver_calls (execute_step pol drv True rq) =
         take (length (driver_calls (execute_step pol drv True rq)))
           (if is_login_step rq then own else lg @ own) \<and>
       (final_state (execute_step pol drv True rq) = Completed \<longrightarrow>
          driver_calls (execute_step pol drv True rq) =
            (if is_login_step rq then own else lg @ own)))"
proof -
  have run: "click_run_step loc st s = handleRunStep loc st s"
    using assms by (simp add: click_run_step_def)
  have opened: "click_run_step loc st s =
      s\<lparr>isRunning := True, screenshot := None, progress := [],
        wsRef := Some \<lparr>ws_url = (if protocol loc = ''https:'' then ''wss:'' else ''ws:'') @ ''//'' @
                                replace_first (host loc) '':5173'' '':8000'' @
                                ''/ws/execute-step/'' @ string_of_nat (step_id st),
                      ws_sent = [], close_called = False\<rparr>\<rparr>"
    by (simp add: run handleRunStep_def wsUrl_def)
  have silent: "\<forall>es. map_option ws_sent (wsRef (fold fire es (click_run_step loc st s))) = Some []"
    by (simp add: run nothing_sent_during_run)
  have server: "driver_calls (execute_step pol drv True rq) =
         take (length (driver_calls (execute_step pol drv True rq)))
           (if is_login_step rq then own else lg @ own) \<and>
       (final_state (execute_step pol drv True rq) = Completed \<longrightarrow>
          driver_calls (execute_step pol drv True rq) =
            (if is_login_step rq then own else lg @ own))"
    if v: "validate pol (login_raw rq) = Inr lg \<and> validate pol (target_raw rq) = Inr own"
    for pol drv rq lg own
  proof -
    have es: "effective_sequence pol rq = Inr (if is_login_step rq then own else lg @ own)"
      using v by (simp add: effective_sequence_def)
    show ?thesis
      using driver_calls_prefix [OF es, of drv True] completed_calls_all [OF es, of drv True]
      by blast
  qed
  show ?thesis
    using opened silent server by blast
qed

text \<open>
  Step 5 run from the development server: the socket goes to port 8000 with the id at the
  end of the path.  After the server has closed the channel, a second click opens a socket
  to the same URL again.  The session for the step gives the driver the login command
  first and then the two commands of the step.
\<close>

theorem run_step_request_witness:
  "wsRef (click_run_step dev_location (runnable_step 5) idle_executor) =
     Some \<lparr>ws_url = ''ws://localhost:8000/ws/execute-step/5'', ws_sent = [],
           close_called = False\<rparr> \<and>
   isRunning (click_run_step dev_location (runnable_step 5)
     (fold fire [WsOpen, WsClose]
        (click_run_step dev_location (runnable_step 5) idle_executor))) \<and>
   driver_calls (execute_step sample_policy sample_driver True sample_request) =
     [\<lparr>action = TypeText, target = None, input_value = None, cmd_description = None\<rparr>,
      \<lparr>action = Navigate, target = None, input_value = None, cmd_description = None\<rparr>,
      \<lparr>action = Click, target = None, input_value = None, cmd_description = None\<rparr>]"
proof -
  let ?st = "runnable_step 5"
  let ?s = "click_run_step dev_location ?st idle_executor"
  let ?s1 = "fold fire [WsOpen, WsClose] ?s"
  have shown: "run_button_shown ?st idle_executor" and idle: "\<not> isRunning idle_executor"
    by (simp_all add: run_button_shown_def idle_executor_def runnable_step_def truthy_opt_def
        truthy_def)
  have first: "?s = idle_executor\<lparr>isRunning := True, screenshot := None, progress := [],
        wsRef := Some \<lparr>ws_url = wsUrl dev_location ?st, ws_sent = [], close_called = False\<rparr>\<rparr>"
    using run_step_request_in_url [OF shown idle, of dev_location] by (simp add: wsUrl_def)
  then have url: "wsRef ?s = Some \<lparr>ws_url = ''ws://localhost:8000/ws/execute-step/5'',
      ws_sent = [], close_called = False\<rparr>"
    by (simp add: dev_url)
  have shown1: "run_button_shown ?st ?s1" and idle1: "\<not> isRunning ?s1"
    unfolding first
    by (simp_all add: fire_def onclose_def run_button_shown_def idle_executor_def
        runnable_step_def truthy_opt_def truthy_def)
  have again: "isRunning (click_run_step dev_location ?st ?s1)"
    using run_step_request_in_url [OF shown1 idle1, of dev_location] by simp
  have lg: "validate sample_policy (login_raw sample_request) =
      Inr [\<lparr>action = TypeText, target = None, input_value = None, cmd_description = None\<rparr>]"
    by (simp add: validate_def sample_policy_def sample_request_def validate_element_def
        recognize_def)
  have own: "validate sample_policy (target_raw sample_request) =
      Inr [\<lparr>action = Navigate, target = None, input_value = None, cmd_description = None\<rparr>,
           \<lparr>action = Click, target = None, input_value = None, cmd_description = None\<rparr>]"
    by (simp add: validate_def sample_policy_def sample_request_def validate_element_def
        recognize_def)
  have target: "\<not> is_login_step sample_request"
    by (simp add: sample_request_def)
  have completed: "final_state (execute_step sample_policy sample_driver True sample_request) =
      Completed"
    by (simp add: sample_session)
  have "validate sample_policy (login_raw sample_request) =
        Inr [\<lparr>action = TypeText, target = None, input_value = None, cmd_description = None\<rparr>] \<and>
      validate sample_policy (target_raw sample_request) =
        Inr [\<lparr>action = Navigate, target = None, input_value = None, cmd_description = None\<rparr>,
             \<lparr>action = Click, target = None, input_value = None, cmd_description = None\<rparr>]"
    using lg own by simp
  then have "final_state (execute_step sample_policy sample_driver True sample_request) =
        Completed \<longrightarrow>
      driver_calls (execute_step sample_policy sample_driver True sample_request) =
        (if is_login_step sample_request
         then [\<lparr>action = Navigate, target = None, input_value = None, cmd_description = None\<rparr>,
               \<lparr>action = Click, target = None, input_value = None, cmd_description = None\<rparr>]
         else [\<lparr>action = TypeText, target = None, input_value = None, cmd_description = None\<rparr>] @
              [\<lparr>action = Navigate, target = None, input_value = None, cmd_description = None\<rparr>,
               \<lparr>action = Click, target = None, input_value = None, cmd_description = None\<rparr>])"
    by (rule run_step_request_in_url [OF shown idle, of dev_location, THEN conjunct2,
          THEN conjunct2, rule_format, THEN conjunct2])
  then have calls: "driver_calls (execute_step sample_policy sample_driver True sample_request) =
     [\<lparr>action = TypeText, target = None, input_value = None, cmd_description = None\<rparr>,
      \<lparr>action = Navigate, target = None, input_value = None, cmd_description = None\<rparr>,
      \<lparr>action = Click, target = None, input_value = None, cmd_description = None\<rparr>]"
    using completed target by simp
  show ?thesis
    using url again calls by simp
qed

text \<open>
  The claim as written has the client send an \<open>execute_step\<close> message that carries the
  step id.  It sends none: after the click, the opening of the socket and a first message
  from the server, the list of messages sent is still empty, and the id is in the URL.
\<close>

theorem no_execute_step_message_counterexample:
  "map_option ws_sent
     (wsRef (fold fire [WsOpen, WsMessage (Object (msg ''status_update''))]
        (click_run_step dev_location (runnable_step 5) idle_executor))) = Some [] \<and>
   map_option ws_url
     (wsRef (fold fire [WsOpen, WsMessage (Object (msg ''status_update''))]
        (click_run_step dev_location (runnable_step 5) idle_executor))) =
     Some ''ws://localhost:8000/ws/execute-step/5''"
proof -
  let ?s = "click_run_step dev_location (runnable_step 5) idle_executor"
  have run: "?s = handleRunStep dev_location (runnable_step 5) idle_executor"
    by (simp add: click_run_step_def run_button_shown_def idle_executor_def runnable_step_def
        truthy_opt_def truthy_def)
  have "wsRef (fold fire [WsOpen, WsMessage (Object (msg ''status_update''))] ?s) = wsRef ?s"
    by (simp add: run fire_def onmessage_def msg_def handleRunStep_def socket_open_def)
  then show ?thesis
    by (simp add: run handleRunStep_def dev_url)
qed

section \<open>Writing and re-reading a command array\<close>

subsection \<open>Escapes are read back\<close>

lemma hex_value_hex_digit: "d < 16 \<Longrightarrow> hex_value (hex_digit d) = Some d"
  by (auto simp: hex_value_def hex_digit_def)

lemma hex4_recompose:
  fixes c :: nat
  assumes "c < 65536"
  shows "4096 * (c div 4096 mod 16) + 256 * (c div 256 mod 16) + 16 * (c div 16 mod 16) + c mod 16 = c"
proof -
  have a: "c = 16 * (c div 16) + c mod 16" by simp
  have "c div 16 = 16 * (c div 16 div 16) + c div 16 mod 16" by simp
  then have b: "c div 16 = 16 * (c div 256) + c div 16 mod 16"
    by (simp add: div_mult2_eq [symmetric])
  have "c div 256 = 16 * (c div 256 div 16) + c div 256 mod 16" by simp
  then have d: "c div 256 = 16 * (c div 4096) + c div 256 mod 16"
    by (simp add: div_mult2_eq [symmetric])
  have "c div 4096 < 16" using assms by simp
  then have e: "c div 4096 mod 16 = c div 4096" by simp
  show ?thesis using a b d e by linarith
qed

lemma hex4_value_unicode:
  assumes "c < 65536"
  shows "hex4_value (hex_digit (c div 4096 mod 16)) (hex_digit (c div 256 mod 16))
           (hex_digit (c div 16 mod 16)) (hex_digit (c mod 16)) = Some c"
proof -
  have "hex_value (hex_digit (c div 4096 mod 16)) = Some (c div 4096 mod 16)"
    and "hex_value (hex_digit (c div 256 mod 16)) = Some (c div 256 mod 16)"
    and "hex_value (hex_digit (c div 16 mod 16)) = Some (c div 16 mod 16)"
    and "hex_value (hex_digit (c mod 16)) = Some (c mod 16)"
    by (rule hex_value_hex_digit, simp)+
  then show ?thesis
    unfolding hex4_value_def
    by (simp only: prod.case option.case hex4_recompose [OF assms])
qed

lemma read_string_u:
  "read_string (92 # 117 # h1 # h2 # h3 # h4 # t) =
     (case hex4_value h1 h2 h3 h4 of None \<Rightarrow> None | Some n \<Rightarrow> cons_unit n (read_string t))"
  by simp

lemma read_unicode_escape:
  "c < 65536 \<Longrightarrow> read_string (unicode_escape c @ t) = cons_unit c (read_string t)"
  unfolding unicode_escape_def
  by (simp only: append_Cons append_Nil read_string_u hex4_value_unicode option.case)

lemma read_escape_unit: "read_string (escape_unit c @ t) = cons_unit c (read_string t)"
proof -
  consider "c \<in> {8, 9, 10, 12, 13, 34, 92}"
    | "c \<notin> {8, 9, 10, 12, 13, 34, 92}" "c < 32 \<or> is_high_surrogate c \<or> is_low_surrogate c"
    | "c \<notin> {8, 9, 10, 12, 13, 34, 92}" "\<not> (c < 32 \<or> is_high_surrogate c \<or> is_low_surrogate c)"
    by blast
  then show ?thesis
  proof cases
    case 1
    then show ?thesis by (auto simp: escape_unit_def simple_escape_def)
  next
    case 2
    then have "c < 65536"
      by (auto simp: is_high_surrogate_def is_low_surrogate_def)
    then show ?thesis
      using 2 by (simp add: escape_unit_def read_unicode_escape)
  next
    case 3
    then show ?thesis by (simp add: escape_unit_def)
  qed
qed

lemma read_surrogate_pair:
  "is_high_surrogate c \<Longrightarrow> is_low_surrogate d \<Longrightarrow>
   read_string (c # d # t) = cons_unit c (cons_unit d (read_string t))"
  by (simp add: is_high_surrogate_def is_low_surrogate_def)

lemma read_escape_units:
  "read_string (escape_units s @ 34 # rest) = Some (s, rest)"
proof (induction s rule: escape_units.induct)
  case 1
  then show ?case by simp
next
  case (2 c)
  have "read_string (escape_unit c @ 34 # rest) = cons_unit c (read_string (34 # rest))"
    by (rule read_escape_unit)
  then show ?case by (simp add: cons_unit_def)
next
  case (3 c d cs)
  show ?case
  proof (cases "is_high_surrogate c \<and> is_low_surrogate d")
    case True
    have ih: "read_string (escape_units cs @ 34 # rest) = Some (cs, rest)"
      using 3(1) True by blast
    have "escape_units (c # d # cs) = c # d # escape_units cs"
      using True by simp
    then have "read_string (escape_units (c # d # cs) @ 34 # rest) =
        cons_unit c (cons_unit d (read_string (escape_units cs @ 34 # rest)))"
      using read_surrogate_pair True by (simp del: read_string.simps)
    then show ?thesis
      by (simp add: ih cons_unit_def del: read_string.simps)
  next
    case False
    have "read_string (escape_unit c @ escape_units (d # cs) @ 34 # rest) =
        cons_unit c (read_string (escape_units (d # cs) @ 34 # rest))"
      by (rule read_escape_unit)
    moreover have "read_string (escape_units (d # cs) @ 34 # rest) = Some (d # cs, rest)"
      using 3(2) False by blast
    moreover have "escape_units (c # d # cs) = escape_unit c @ escape_units (d # cs)"
      using False by auto
    ultimately show ?thesis
      by (simp add: cons_unit_def del: read_string.simps escape_units.simps)
  qed
qed

lemma read_quote: "read_string (tl (quote s) @ rest) = Some (s, rest)"
  by (simp add: quote_def read_escape_units del: read_string.simps)

subsection \<open>Array indices\<close>

lemma digits_value_acc: "digits_value acc cs = acc * 10 ^ length cs + digits_value 0 cs"
proof (induction cs arbitrary: acc)
  case Nil
  then show ?case by simp
next
  case (Cons c cs)
  have "digits_value acc (c # cs) = digits_value (10 * acc + (c - 48)) cs" by simp
  also have "\<dots> = (10 * acc + (c - 48)) * 10 ^ length cs + digits_value 0 cs"
    by (rule Cons.IH)
  also have "\<dots> = acc * 10 ^ length (c # cs) + ((c - 48) * 10 ^ length cs + digits_value 0 cs)"
    by (simp add: algebra_simps)
  also have "(c - 48) * 10 ^ length cs + digits_value 0 cs = digits_value 0 (c # cs)"
    using Cons.IH [of "c - 48"] by simp
  finally show ?case .
qed

lemma digits_value_Cons:
  "digits_value 0 (c # cs) = (c - 48) * 10 ^ length cs + digits_value 0 cs"
  using digits_value_acc [of "c - 48" cs] by simp

lemma digits_value_less: "list_all is_digit cs \<Longrightarrow> digits_value 0 cs < 10 ^ length cs"
proof (induction cs)
  case Nil
  then show ?case by simp
next
  case (Cons c cs)
  then have d: "c - 48 \<le> 9" and ih: "digits_value 0 cs < 10 ^ length cs"
    by (auto simp: is_digit_def)
  have "(c - 48) * 10 ^ length cs \<le> 9 * 10 ^ length cs"
    using d by (rule mult_le_mono1)
  then have "(c - 48) * 10 ^ length cs + digits_value 0 cs < 9 * 10 ^ length cs + 10 ^ length cs"
    using ih by (rule add_le_less_mono)
  then show ?case
    by (simp add: digits_value_Cons del: digits_value.simps)
qed

lemma digits_value_lower:
  "is_digit c \<Longrightarrow> c \<noteq> 48 \<Longrightarrow> 10 ^ length cs \<le> digits_value 0 (c # cs)"
proof -
  assume "is_digit c" "c \<noteq> 48"
  then have "1 \<le> c - 48" unfolding is_digit_def by arith
  then have "1 * 10 ^ length cs \<le> (c - 48) * 10 ^ length cs"
    by (rule mult_le_mono1)
  then have "10 ^ length cs \<le> (c - 48) * 10 ^ length cs + digits_value 0 cs"
    by linarith
  then show ?thesis
    by (simp only: digits_value_Cons)
qed

lemma digits_value_inj_same_length:
  "length xs = length ys \<Longrightarrow> list_all is_digit xs \<Longrightarrow> list_all is_digit ys \<Longrightarrow>
   digits_value 0 xs = digits_value 0 ys \<Longrightarrow> xs = ys"
proof (induction xs ys rule: list_induct2)
  case Nil
  then show ?case by simp
next
  case (Cons x xs y ys)
  let ?p = "(10::nat) ^ length xs"
  have lx: "digits_value 0 xs < ?p" and ly: "digits_value 0 ys < ?p"
    using Cons digits_value_less [of xs] digits_value_less [of ys] by simp_all
  have eq: "(x - 48) * ?p + digits_value 0 xs = (y - 48) * ?p + digits_value 0 ys"
    using Cons.prems(3) Cons.hyps by (simp add: digits_value_Cons del: digits_value.simps)
  have "((x - 48) * ?p + digits_value 0 xs) div ?p = x - 48"
    using lx by simp
  moreover have "((y - 48) * ?p + digits_value 0 ys) div ?p = y - 48"
    using ly by simp
  ultimately have hd_eq: "x - 48 = y - 48"
    using eq by simp
  moreover have "48 \<le> x" "48 \<le> y"
    using Cons.prems by (simp_all add: is_digit_def)
  ultimately have "x = y" by arith
  have "digits_value 0 xs = digits_value 0 ys"
    using eq hd_eq by simp
  then have "xs = ys"
    using Cons by simp
  then show ?case using \<open>x = y\<close> by simp
qed

lemma index_length_le:
  assumes "is_index k" "is_index k'" "digits_value 0 k = digits_value 0 k'"
  shows "length k' \<le> length k"
proof (rule ccontr)
  assume "\<not> length k' \<le> length k"
  then have lt: "length k < length k'" by simp
  obtain c cs where k': "k' = c # cs"
    using assms(2) by (cases k') (auto simp: is_index_def)
  have "length k' \<noteq> 1"
    using lt assms(1) by (cases k) (auto simp: is_index_def)
  then have "c \<noteq> 48" "is_digit c"
    using assms(2) k' by (auto simp: is_index_def)
  then have "10 ^ length cs \<le> digits_value 0 k'"
    unfolding k' by (rule digits_value_lower [rotated])
  moreover have "digits_value 0 k < 10 ^ length k"
    using assms(1) by (simp add: is_index_def digits_value_less)
  moreover have "(10::nat) ^ length k \<le> 10 ^ length cs"
    using lt k' by (simp add: power_increasing)
  ultimately show False
    using assms(3) by simp
qed

lemma index_inj:
  assumes "is_index k" "is_index k'" "digits_value 0 k = digits_value 0 k'"
  shows "k = k'"
proof -
  have "length k = length k'"
    using index_length_le [OF assms] index_length_le [OF assms(2) assms(1)] assms(3) by simp
  then show ?thesis
    using assms by (simp add: is_index_def digits_value_inj_same_length)
qed

subsection \<open>Property order is kept\<close>

lemma keys_replace_value: "map fst (replace_value k v kvs) = map fst kvs"
  by (induction kvs) auto

lemma values_replace_value: "snd ` set (replace_value k v kvs) \<subseteq> insert v (snd ` set kvs)"
proof (induction kvs)
  case Nil
  then show ?case by simp
next
  case (Cons kv kvs)
  show ?case
  proof (cases "fst kv = k")
    case True
    then have "replace_value k v (kv # kvs) = (k, v) # kvs"
      by (cases kv) simp
    then show ?thesis by auto
  next
    case False
    then have "replace_value k v (kv # kvs) = kv # replace_value k v kvs"
      by (cases kv) simp
    then show ?thesis using Cons.IH by auto
  qed
qed

lemma set_insert_index: "set (insert_index k v kvs) = insert (k, v) (set kvs)"
proof (induction kvs)
  case Nil
  then show ?case by simp
next
  case (Cons kv kvs)
  obtain k' v' where kv: "kv = (k', v')" by (cases kv)
  show ?case
  proof (cases "is_index k' \<and> digits_value 0 k' < digits_value 0 k")
    case True
    then have "insert_index k v (kv # kvs) = (k', v') # insert_index k v kvs"
      using kv by simp
    then show ?thesis using Cons.IH kv by auto
  next
    case False
    then have "insert_index k v (kv # kvs) = (k, v) # (k', v') # kvs"
      using kv by auto
    then show ?thesis using kv by auto
  qed
qed

lemma values_define_property:
  "snd ` set (define_property k v kvs) \<subseteq> insert v (snd ` set kvs)"
  using values_replace_value [of k v kvs]
  by (auto simp: define_property_def set_insert_index)

lemma precedes_after_index:
  "is_index k' \<Longrightarrow> digits_value 0 k' < digits_value 0 k \<Longrightarrow> precedes k' k"
  by (simp add: precedes_def)

lemma precedes_trans_index:
  "is_index k \<Longrightarrow> precedes k' y \<Longrightarrow> \<not> (is_index k' \<and> digits_value 0 k' < digits_value 0 k)
   \<Longrightarrow> k \<noteq> k' \<Longrightarrow> precedes k k' \<and> precedes k y"
proof -
  assume k: "is_index k" and p: "precedes k' y"
    and n: "\<not> (is_index k' \<and> digits_value 0 k' < digits_value 0 k)" and ne: "k \<noteq> k'"
  show ?thesis
  proof (cases "is_index k'")
    case False
    then have "\<not> is_index y" using p by (simp add: precedes_def)
    then show ?thesis using k False by (simp add: precedes_def)
  next
    case True
    then have "digits_value 0 k \<noteq> digits_value 0 k'"
      using index_inj [OF k True] ne by blast
    then have lt: "digits_value 0 k < digits_value 0 k'"
      using n True by simp
    then show ?thesis
      using k True p by (auto simp: precedes_def)
  qed
qed

lemma precedes_first_index:
  "is_index k \<Longrightarrow> \<not> (is_index k' \<and> digits_value 0 k' < digits_value 0 k) \<Longrightarrow> k \<noteq> k'
   \<Longrightarrow> precedes k k'"
proof -
  assume k: "is_index k"
    and n: "\<not> (is_index k' \<and> digits_value 0 k' < digits_value 0 k)" and ne: "k \<noteq> k'"
  show ?thesis
  proof (cases "is_index k'")
    case False
    then show ?thesis using k by (simp add: precedes_def)
  next
    case True
    then have "digits_value 0 k \<noteq> digits_value 0 k'"
      using index_inj [OF k True] ne by blast
    then show ?thesis
      using n True k by (simp add: precedes_def)
  qed
qed

lemma sorted_insert_index:
  "is_index k \<Longrightarrow> k \<notin> fst ` set kvs \<Longrightarrow> sorted_wrt precedes (map fst kvs) \<Longrightarrow>
   sorted_wrt precedes (map fst (insert_index k v kvs))"
proof (induction kvs)
  case Nil
  then show ?case by simp
next
  case (Cons kv kvs)
  obtain k' v' where kv: "kv = (k', v')" by (cases kv)
  have ne: "k \<noteq> k'" and notin: "k \<notin> fst ` set kvs"
    using Cons.prems(2) kv by auto
  have later: "\<forall>y \<in> fst ` set kvs. precedes k' y" and tail: "sorted_wrt precedes (map fst kvs)"
    using Cons.prems(3) kv by auto
  show ?case
  proof (cases "is_index k' \<and> digits_value 0 k' < digits_value 0 k")
    case True
    have "sorted_wrt precedes (map fst (insert_index k v kvs))"
      using Cons.IH [OF Cons.prems(1) notin tail] .
    moreover have "\<forall>y \<in> fst ` set (insert_index k v kvs). precedes k' y"
      using later True by (auto simp: set_insert_index precedes_after_index)
    moreover have "insert_index k v (kv # kvs) = (k', v') # insert_index k v kvs"
      using True kv by simp
    ultimately show ?thesis
      by simp
  next
    case False
    have "precedes k k'"
      using precedes_first_index [OF Cons.prems(1) False ne] .
    moreover have "\<forall>y \<in> fst ` set kvs. precedes k y"
      using precedes_trans_index [OF Cons.prems(1) _ False ne] later by blast
    moreover have "insert_index k v (kv # kvs) = (k, v) # (k', v') # kvs"
      using False kv by auto
    ultimately show ?thesis
      using later tail by simp
  qed
qed

lemma sorted_append_name:
  "\<not> is_index k \<Longrightarrow> sorted_wrt precedes (map fst kvs) \<Longrightarrow>
   sorted_wrt precedes (map fst (kvs @ [(k, v)]))"
  by (auto simp: sorted_wrt_append precedes_def)

lemma canonical_define_property:
  assumes "canonical kvs"
  shows "canonical (define_property k v kvs)"
proof (cases "k \<in> set (map fst kvs)")
  case True
  then show ?thesis
    using assms by (simp add: define_property_def canonical_def keys_replace_value)
next
  case False
  show ?thesis
  proof (cases "is_index k")
    case True
    have "sorted_wrt precedes (map fst (insert_index k v kvs))"
      using sorted_insert_index [OF True, of kvs v] False assms by (auto simp: canonical_def)
    moreover have "distinct (map fst (insert_index k v kvs))"
      using False assms
    proof (induction kvs)
      case Nil
      then show ?case by simp
    next
      case (Cons kv kvs)
      then have "canonical kvs" "k \<notin> set (map fst kvs)"
        by (auto simp: canonical_def)
      then have "distinct (map fst (insert_index k v kvs))"
        using Cons.IH by simp
      moreover have "fst kv \<notin> fst ` set (insert_index k v kvs)"
        using Cons.prems by (auto simp: set_insert_index canonical_def)
      ultimately show ?case
        using Cons.prems by (cases kv) (auto simp: canonical_def)
    qed
    ultimately show ?thesis
      using False True by (simp add: define_property_def canonical_def)
  next
    case no_index: False
    then show ?thesis
      using False assms sorted_append_name [OF no_index, of kvs v]
      by (simp add: define_property_def canonical_def)
  qed
qed

lemma insert_index_at_end:
  "\<forall>k' \<in> fst ` set kvs. is_index k' \<and> digits_value 0 k' < digits_value 0 k \<Longrightarrow>
   insert_index k v kvs = kvs @ [(k, v)]"
  by (induction kvs) auto

lemma define_property_appends:
  assumes "canonical (kvs @ [(k, v)])"
  shows "define_property k v kvs = kvs @ [(k, v)]"
proof -
  have new: "k \<notin> set (map fst kvs)"
    using assms by (auto simp: canonical_def)
  have before: "\<forall>k' \<in> fst ` set kvs. precedes k' k"
    using assms by (auto simp: canonical_def sorted_wrt_append)
  show ?thesis
  proof (cases "is_index k")
    case True
    have "\<forall>k' \<in> fst ` set kvs. is_index k' \<and> digits_value 0 k' < digits_value 0 k"
    proof
      fix k' assume "k' \<in> fst ` set kvs"
      then have "precedes k' k" using before by blast
      then show "is_index k' \<and> digits_value 0 k' < digits_value 0 k"
        using True by (auto simp: precedes_def split: if_splits)
    qed
    then show ?thesis
      using new True by (simp add: define_property_def insert_index_at_end)
  next
    case False
    then show ?thesis using new by (simp add: define_property_def)
  qed
qed

lemma canonical_prefix: "canonical (xs @ ys) \<Longrightarrow> canonical xs"
  by (auto simp: canonical_def sorted_wrt_append)

subsection \<open>White space between values\<close>

lemma first_ok_iff: "first_ok s = (\<exists>c t. s = c # t \<and> \<not> is_ws c \<and> c \<noteq> 93 \<and> c \<noteq> 125)"
  by (cases s) (simp_all add: first_ok_def)

lemma skip_ws_indent: "skip_ws (newline_indent n @ s) = skip_ws s"
  by (simp add: skip_ws_def newline_indent_def is_ws_def dropWhile_append)

lemma skip_ws_indent_stop: "\<not> is_ws c \<Longrightarrow> skip_ws (newline_indent n @ c # t) = c # t"
  by (simp add: skip_ws_def newline_indent_def is_ws_def dropWhile_append)

lemma skip_ws_first_ok: "first_ok s \<Longrightarrow> skip_ws s = s"
  by (auto simp: first_ok_iff skip_ws_def)

lemma skip_ws_indent_first_ok: "first_ok s \<Longrightarrow> skip_ws (newline_indent n @ s) = s"
  by (simp add: skip_ws_indent skip_ws_first_ok)

lemma first_ok_append: "first_ok s \<Longrightarrow> first_ok (s @ t)"
  by (auto simp: first_ok_iff)

lemma first_ok_quote: "first_ok (quote k @ t)"
  by (simp add: first_ok_def quote_def is_ws_def)

lemma first_ok_stringify:
  "numbers_survive cod v \<Longrightarrow> first_ok (stringify_value cod ind v)"
proof (cases v)
  case (JNumber n)
  assume "numbers_survive cod v"
  then obtain x where n: "n = Finite x" and tok: "number_token (show_number cod x)"
    using JNumber by (cases n) auto
  then obtain c t where "show_number cod x = c # t" "c = 45 \<or> is_digit c"
    by (cases "show_number cod x") (auto simp: number_token_def)
  then show ?thesis
    using JNumber n by (auto simp: first_ok_iff is_ws_def is_digit_def)
next
  case (JString s)
  then show ?thesis using first_ok_quote [of s "[]"] by simp
qed (auto simp: first_ok_iff is_ws_def)

lemma follow_ok_indent: "follow_ok (newline_indent n @ t)"
  by (simp add: follow_ok_def newline_indent_def is_number_char_def is_digit_def)

lemma follow_ok_comma: "follow_ok (44 # t)"
  by (simp add: follow_ok_def is_number_char_def is_digit_def)

lemma join_Cons: "join sep (x # xs) = x @ (if xs = [] then [] else sep @ join sep xs)"
  by (cases xs) simp_all

subsection \<open>Tokens, strings and elements\<close>

lemma takeWhile_token:
  "list_all is_number_char t \<Longrightarrow> follow_ok rest \<Longrightarrow>
   takeWhile is_number_char (t @ rest) = t \<and> dropWhile is_number_char (t @ rest) = rest"
proof -
  assume t: "list_all is_number_char t" and f: "follow_ok rest"
  have "takeWhile is_number_char rest = []" "dropWhile is_number_char rest = rest"
    using f by (cases rest; simp add: follow_ok_def)+
  then show ?thesis
    using t by (simp add: takeWhile_append2 dropWhile_append2 list_all_iff)
qed

lemma parse_number:
  assumes "number_token (show_number cod x)"
    and "read_number cod (show_number cod x) = Some (Finite x)"
    and "follow_ok rest"
  shows "parse_value cod (Suc f) (show_number cod x @ rest) = Some (JNumber (Finite x), rest)"
proof -
  obtain c t where ct: "show_number cod x = c # t" and c: "c = 45 \<or> is_digit c"
    using assms(1) by (cases "show_number cod x") (auto simp: number_token_def)
  have tok: "takeWhile is_number_char (c # t @ rest) = c # t"
    "dropWhile is_number_char (c # t @ rest) = rest"
    using takeWhile_token [of "c # t" rest] assms(1,3) ct by (simp_all add: number_token_def)
  have c_not: "c \<noteq> 123" "c \<noteq> 91" "c \<noteq> 34" "c \<noteq> 110" "c \<noteq> 116" "c \<noteq> 102"
    using c by (auto simp: is_digit_def)
  have "parse_value cod (Suc f) (c # t @ rest) =
      (case read_number cod (takeWhile is_number_char (c # t @ rest)) of
         None \<Rightarrow> None
       | Some n \<Rightarrow> Some (JNumber n, dropWhile is_number_char (c # t @ rest)))"
    using c c_not by (simp add: starts_def del: takeWhile.simps dropWhile.simps)
  then show ?thesis
    using tok assms(2) ct by (simp del: takeWhile.simps dropWhile.simps parse_value.simps)
qed

lemma parse_string:
  "parse_value cod (Suc f) (quote s @ rest) = Some (JString s, rest)"
  using read_escape_units [of s rest]
  by (simp add: quote_def del: read_string.simps)

lemma parse_literals:
  "parse_value cod (Suc f) ([110, 117, 108, 108] @ rest) = Some (JNull, rest)"
  "parse_value cod (Suc f) ([116, 114, 117, 101] @ rest) = Some (JBool True, rest)"
  "parse_value cod (Suc f) ([102, 97, 108, 115, 101] @ rest) = Some (JBool False, rest)"
  by (simp_all add: starts_def)

lemma parse_elements_printed:
  assumes each: "\<forall>x \<in> set (x0 # xs). first_ok (S x) \<and>
      (\<forall>fuel rest. weight x < fuel \<longrightarrow> follow_ok rest \<longrightarrow>
         parse_value cod fuel (S x @ rest) = Some (x, rest))"
    and fuel: "sum_list (map (\<lambda>x. Suc (weight x)) (x0 # xs)) < fuel"
  shows "parse_elements cod fuel acc
           (join (44 # newline_indent j) (map S (x0 # xs)) @ newline_indent i @ 93 # rest)
         = Some (acc @ x0 # xs, rest)"
  using each fuel
proof (induction xs arbitrary: x0 acc fuel)
  case Nil
  obtain f where f: "fuel = Suc f" and wf: "weight x0 < f"
    using Nil.prems(2) by (cases fuel) auto
  have "parse_value cod f (S x0 @ newline_indent i @ 93 # rest) =
      Some (x0, newline_indent i @ 93 # rest)"
    using Nil.prems(1) wf follow_ok_indent by simp
  moreover have "skip_ws (newline_indent i @ 93 # rest) = 93 # rest"
    by (rule skip_ws_indent_stop) (simp add: is_ws_def)
  ultimately show ?case
    by (simp add: f del: parse_value.simps)
next
  case (Cons y ys)
  obtain f where f: "fuel = Suc f" and wf: "weight x0 < f"
    and rest_fuel: "sum_list (map (\<lambda>x. Suc (weight x)) (y # ys)) < f"
    using Cons.prems(2) by (cases fuel) auto
  let ?sep = "44 # newline_indent j"
  let ?more = "join ?sep (map S (y # ys)) @ newline_indent i @ 93 # rest"
  have whole: "join ?sep (map S (x0 # y # ys)) @ newline_indent i @ 93 # rest =
      S x0 @ 44 # newline_indent j @ ?more"
    by simp
  have "parse_value cod f (S x0 @ 44 # newline_indent j @ ?more) =
      Some (x0, 44 # newline_indent j @ ?more)"
    using Cons.prems(1) wf follow_ok_comma by simp
  moreover have "skip_ws (44 # newline_indent j @ ?more) = 44 # newline_indent j @ ?more"
    by (simp add: skip_ws_def is_ws_def)
  moreover have "first_ok ?more"
  proof -
    have "first_ok (S y)" using Cons.prems(1) by simp
    then have "first_ok (S y @ (if ys = [] then [] else ?sep @ join ?sep (map S ys))
        @ newline_indent i @ 93 # rest)"
      by (rule first_ok_append)
    then show ?thesis by (simp add: join_Cons del: join.simps)
  qed
  then have "skip_ws (newline_indent j @ ?more) = ?more"
    by (rule skip_ws_indent_first_ok)
  moreover have "parse_elements cod f (acc @ [x0]) ?more = Some ((acc @ [x0]) @ y # ys, rest)"
    using Cons.IH [of y f "acc @ [x0]"] Cons.prems(1) rest_fuel by simp
  ultimately show ?case
    unfolding whole f by (simp del: parse_value.simps join.simps)
qed

subsection \<open>Members\<close>

lemma parse_members_printed:
  assumes each: "\<forall>kv \<in> set (kv0 # kvs). first_ok (S (snd kv)) \<and>
      (\<forall>fuel rest. weight (snd kv) < fuel \<longrightarrow> follow_ok rest \<longrightarrow>
         parse_value cod fuel (S (snd kv) @ rest) = Some (snd kv, rest))"
    and order: "canonical (acc @ kv0 # kvs)"
    and fuel: "sum_list (map (\<lambda>kv. Suc (weight (snd kv))) (kv0 # kvs)) < fuel"
  shows "parse_members cod fuel acc
           (join (44 # newline_indent j) (map (\<lambda>kv. quote (fst kv) @ [58, 32] @ S (snd kv)) (kv0 # kvs))
            @ newline_indent i @ 125 # rest)
         = Some (acc @ kv0 # kvs, rest)"
  using each order fuel
proof (induction kvs arbitrary: kv0 acc fuel)
  case Nil
  obtain k v where kv0: "kv0 = (k, v)" by (cases kv0)
  obtain f where f: "fuel = Suc f" and wf: "weight v < f"
    using Nil.prems(3) kv0 by (cases fuel) auto
  define tail where "tail = newline_indent i @ 125 # rest"
  have whole: "join (44 # newline_indent j)
      (map (\<lambda>kv. quote (fst kv) @ [58, 32] @ S (snd kv)) [(k, v)])
       @ newline_indent i @ 125 # rest =
      34 # escape_units k @ 34 # 58 # 32 # S v @ tail"
    by (simp add: quote_def tail_def)
  have key: "read_string (escape_units k @ 34 # 58 # 32 # S v @ tail) =
      Some (k, 58 # 32 # S v @ tail)"
    by (rule read_escape_units)
  have colon: "skip_ws (58 # 32 # S v @ tail) = 58 # 32 # S v @ tail"
    by (simp add: skip_ws_def is_ws_def)
  have "first_ok (S v @ tail)"
    using Nil.prems(1) kv0 by (simp add: first_ok_append)
  then have sp: "skip_ws (32 # S v @ tail) = S v @ tail"
    using skip_ws_first_ok [of "S v @ tail"] by (simp add: skip_ws_def is_ws_def)
  have "follow_ok tail"
    unfolding tail_def by (rule follow_ok_indent)
  then have val: "parse_value cod f (S v @ tail) = Some (v, tail)"
    using Nil.prems(1) kv0 wf by simp
  have close: "skip_ws tail = 125 # rest"
    unfolding tail_def by (rule skip_ws_indent_stop) (simp add: is_ws_def)
  have put: "define_property k v acc = acc @ [(k, v)]"
    using Nil.prems(2) kv0 by (simp add: define_property_appends)
  have "parse_members cod (Suc f) acc (34 # escape_units k @ 34 # 58 # 32 # S v @ tail) =
      Some (acc @ [(k, v)], rest)"
    by (simp add: key colon sp val close put
        del: read_string.simps parse_value.simps)
  then show ?case
    unfolding kv0 whole f .
next
  case (Cons kv1 kvs)
  obtain k v where kv0: "kv0 = (k, v)" by (cases kv0)
  obtain f where f: "fuel = Suc f" and wf: "weight v < f"
    and rest_fuel: "sum_list (map (\<lambda>kv. Suc (weight (snd kv))) (kv1 # kvs)) < f"
    using Cons.prems(3) kv0 by (cases fuel) auto
  define body where "body =
    join (44 # newline_indent j) (map (\<lambda>kv. quote (fst kv) @ [58, 32] @ S (snd kv)) (kv1 # kvs))
      @ newline_indent i @ 125 # rest"
  define tail where "tail = 44 # newline_indent j @ body"
  have whole: "join (44 # newline_indent j)
      (map (\<lambda>kv. quote (fst kv) @ [58, 32] @ S (snd kv)) ((k, v) # kv1 # kvs))
       @ newline_indent i @ 125 # rest =
      34 # escape_units k @ 34 # 58 # 32 # S v @ tail"
    by (simp add: quote_def tail_def body_def)
  have key: "read_string (escape_units k @ 34 # 58 # 32 # S v @ tail) =
      Some (k, 58 # 32 # S v @ tail)"
    by (rule read_escape_units)
  have colon: "skip_ws (58 # 32 # S v @ tail) = 58 # 32 # S v @ tail"
    by (simp add: skip_ws_def is_ws_def)
  have "first_ok (S v @ tail)"
    using Cons.prems(1) kv0 by (simp add: first_ok_append)
  then have sp: "skip_ws (32 # S v @ tail) = S v @ tail"
    using skip_ws_first_ok [of "S v @ tail"] by (simp add: skip_ws_def is_ws_def)
  have "follow_ok tail"
    unfolding tail_def by (rule follow_ok_comma)
  then have val: "parse_value cod f (S v @ tail) = Some (v, tail)"
    using Cons.prems(1) kv0 wf by simp
  have comma: "skip_ws tail = 44 # newline_indent j @ body"
    by (simp add: skip_ws_def is_ws_def tail_def)
  have "\<exists>X. body = quote (fst kv1) @ X"
    unfolding body_def by (cases kvs) simp_all
  then have "first_ok body"
    using first_ok_quote by metis
  then have next_key: "skip_ws (newline_indent j @ body) = body"
    by (rule skip_ws_indent_first_ok)
  have "canonical (acc @ [(k, v)])"
    using Cons.prems(2) kv0 canonical_prefix [of "acc @ [(k, v)]" "kv1 # kvs"] by simp
  then have put: "define_property k v acc = acc @ [(k, v)]"
    by (rule define_property_appends)
  have "canonical ((acc @ [(k, v)]) @ kv1 # kvs)"
    using Cons.prems(2) kv0 by simp
  then have "parse_members cod f (acc @ [(k, v)]) body = Some ((acc @ [(k, v)]) @ kv1 # kvs, rest)"
    unfolding body_def
    using Cons.IH [of kv1 "acc @ [(k, v)]" f] Cons.prems(1) rest_fuel by simp
  then have rec: "parse_members cod f (acc @ [(k, v)]) body = Some (acc @ (k, v) # kv1 # kvs, rest)"
    by simp
  have "parse_members cod (Suc f) acc (34 # escape_units k @ 34 # 58 # 32 # S v @ tail) =
      Some (acc @ (k, v) # kv1 # kvs, rest)"
    by (simp add: key colon sp val comma next_key put rec
        del: read_string.simps parse_value.simps)
  then show ?case
    unfolding kv0 whole f .
qed

lemma sum_list_member: "x \<in> set xs \<Longrightarrow> f x \<le> sum_list (map f xs)" for f :: "'a \<Rightarrow> nat"
  by (induction xs) auto

subsection \<open>A written value is read back\<close>

lemma parse_empty_array: "parse_value cod (Suc f) ([91, 93] @ rest) = Some (JArray [], rest)"
  by (simp add: skip_ws_def is_ws_def)

lemma parse_empty_object: "parse_value cod (Suc f) ([123, 125] @ rest) = Some (JObject [], rest)"
  by (simp add: skip_ws_def is_ws_def)

lemma parse_array_open:
  assumes "first_ok body"
  shows "parse_value cod (Suc f) (91 # newline_indent n @ body) =
     (case parse_elements cod f [] body of
        None \<Rightarrow> None
      | Some (xs, rest) \<Rightarrow> Some (JArray xs, rest))"
proof -
  obtain d r where m: "body = d # r" and d: "d \<noteq> 93"
    using assms by (auto simp: first_ok_iff)
  have "skip_ws (newline_indent n @ body) = d # r"
    using skip_ws_indent_first_ok [OF assms] m by simp
  then show ?thesis
    using d by (simp add: m)
qed

lemma parse_object_open:
  assumes "first_ok body"
  shows "parse_value cod (Suc f) (123 # newline_indent n @ body) =
     (case parse_members cod f [] body of
        None \<Rightarrow> None
      | Some (kvs, rest) \<Rightarrow> Some (JObject kvs, rest))"
proof -
  obtain d r where m: "body = d # r" and d: "d \<noteq> 125"
    using assms by (auto simp: first_ok_iff)
  have "skip_ws (newline_indent n @ body) = d # r"
    using skip_ws_indent_first_ok [OF assms] m by simp
  then show ?thesis
    using d by (simp add: m)
qed

lemma parse_stringify_value:
  "numbers_survive cod v \<Longrightarrow> well_ordered v \<Longrightarrow> weight v < fuel \<Longrightarrow> follow_ok rest \<Longrightarrow>
   parse_value cod fuel (stringify_value cod ind v @ rest) = Some (v, rest)"
proof (induction v arbitrary: ind fuel rest)
  case JNull
  then obtain f where "fuel = Suc f" by (cases fuel) auto
  then show ?case using parse_literals(1) [of cod f rest] by simp
next
  case (JBool b)
  then obtain f where "fuel = Suc f" by (cases fuel) auto
  then show ?case
    using parse_literals(2) [of cod f rest] parse_literals(3) [of cod f rest] by (cases b) simp_all
next
  case (JNumber n)
  then obtain f where f: "fuel = Suc f" by (cases fuel) auto
  obtain x where n: "n = Finite x"
    using JNumber.prems(1) by (cases n) auto
  show ?case
    using JNumber.prems(1,4) parse_number [of cod x rest f] by (simp add: n f del: parse_value.simps)
next
  case (JString s)
  then obtain f where "fuel = Suc f" by (cases fuel) auto
  then show ?case using parse_string [of cod f s rest] by (simp del: parse_value.simps)
next
  case (JArray xs)
  obtain f where f: "fuel = Suc f"
    and enough: "sum_list (map (\<lambda>x. Suc (weight x)) xs) < f"
    using JArray.prems(3) by (cases fuel) auto
  show ?case
  proof (cases xs)
    case Nil
    then show ?thesis using parse_empty_array [of cod f rest] by (simp add: f del: parse_value.simps)
  next
    case (Cons x0 xs')
    define S where "S = stringify_value cod (ind + 2)"
    define body where "body = join (44 # newline_indent (ind + 2)) (map S xs) @
        newline_indent ind @ 93 # rest"
    have each: "\<forall>x \<in> set (x0 # xs'). first_ok (S x) \<and>
      (\<forall>fuel rest. weight x < fuel \<longrightarrow> follow_ok rest \<longrightarrow>
         parse_value cod fuel (S x @ rest) = Some (x, rest))"
    proof
      fix x assume x: "x \<in> set (x0 # xs')"
      then have "x \<in> set xs" using Cons by simp
      moreover have ns: "numbers_survive cod x" and wo: "well_ordered x"
        using JArray.prems(1,2) \<open>x \<in> set xs\<close> by (simp_all add: list_all_iff)
      ultimately show "first_ok (S x) \<and>
        (\<forall>fuel rest. weight x < fuel \<longrightarrow> follow_ok rest \<longrightarrow>
           parse_value cod fuel (S x @ rest) = Some (x, rest))"
        unfolding S_def using JArray.IH first_ok_stringify by blast
    qed
    have "first_ok (S x0)" using each by simp
    moreover have "\<exists>X. body = S x0 @ X"
      unfolding body_def Cons by (cases xs') simp_all
    ultimately have fo: "first_ok body"
      using first_ok_append by metis
    have "parse_elements cod f [] body = Some ([] @ x0 # xs', rest)"
      unfolding body_def Cons
      using parse_elements_printed [OF each, where fuel = f and acc = "[]" and j = "ind + 2"
          and i = ind and rest = rest] enough Cons
      by simp
    then have "parse_value cod (Suc f) (91 # newline_indent (ind + 2) @ body) = Some (JArray xs, rest)"
      using parse_array_open [OF fo, of cod f "ind + 2"] Cons by simp
    moreover have "stringify_value cod ind (JArray xs) @ rest = 91 # newline_indent (ind + 2) @ body"
      using Cons by (simp add: body_def S_def)
    ultimately show ?thesis
      by (simp only: f)
  qed
next
  case (JObject kvs)
  obtain f where f: "fuel = Suc f"
    and enough: "sum_list (map (\<lambda>kv. Suc (weight (snd kv))) kvs) < f"
    using JObject.prems(3) by (cases fuel) auto
  show ?case
  proof (cases kvs)
    case Nil
    then show ?thesis using parse_empty_object [of cod f rest] by (simp add: f del: parse_value.simps)
  next
    case (Cons kv0 kvs')
    define S where "S = stringify_value cod (ind + 2)"
    define body where "body = join (44 # newline_indent (ind + 2))
         (map (\<lambda>kv. quote (fst kv) @ [58, 32] @ S (snd kv)) kvs) @
        newline_indent ind @ 125 # rest"
    have each: "\<forall>kv \<in> set (kv0 # kvs'). first_ok (S (snd kv)) \<and>
      (\<forall>fuel rest. weight (snd kv) < fuel \<longrightarrow> follow_ok rest \<longrightarrow>
         parse_value cod fuel (S (snd kv) @ rest) = Some (snd kv, rest))"
    proof
      fix kv assume "kv \<in> set (kv0 # kvs')"
      then have mem: "kv \<in> set kvs" using Cons by simp
      have sn: "snd kv \<in> Basic_BNFs.snds kv"
        by (cases kv) simp
      have ns: "numbers_survive cod (snd kv)" and wo: "well_ordered (snd kv)"
        using JObject.prems(1,2) mem by (simp_all add: list_all_iff)
      then show "first_ok (S (snd kv)) \<and>
        (\<forall>fuel rest. weight (snd kv) < fuel \<longrightarrow> follow_ok rest \<longrightarrow>
           parse_value cod fuel (S (snd kv) @ rest) = Some (snd kv, rest))"
        unfolding S_def using JObject.IH [OF mem sn] first_ok_stringify by blast
    qed
    have "\<exists>X. body = quote (fst kv0) @ X"
      unfolding body_def Cons by (cases kvs') simp_all
    then have fo: "first_ok body"
      using first_ok_quote by metis
    have "canonical ([] @ kv0 # kvs')"
      using JObject.prems(2) Cons by simp
    then have "parse_members cod f [] body = Some ([] @ kv0 # kvs', rest)"
      unfolding body_def Cons
      using parse_members_printed [OF each, where fuel = f and acc = "[]" and j = "ind + 2"
          and i = ind and rest = rest] enough Cons
      by simp
    then have "parse_value cod (Suc f) (123 # newline_indent (ind + 2) @ body) = Some (JObject kvs, rest)"
      using parse_object_open [OF fo, of cod f "ind + 2"] Cons by simp
    moreover have "stringify_value cod ind (JObject kvs) @ rest = 123 # newline_indent (ind + 2) @ body"
      using Cons by (simp add: body_def S_def)
    ultimately show ?thesis
      by (simp only: f)
  qed
qed

subsection \<open>What reading returns\<close>

lemma weight_join:
  assumes "\<forall>x \<in> set xs. w x \<le> length (S x)" and "sep \<noteq> []"
  shows "sum_list (map (\<lambda>x. Suc (w x)) xs) \<le> Suc (length (join sep (map S xs)))"
  using assms(1)
proof (induction xs)
  case Nil
  then show ?case by simp
next
  case (Cons x xs)
  have ih: "sum_list (map (\<lambda>x. Suc (w x)) xs) \<le> Suc (length (join sep (map S xs)))"
    using Cons by simp
  have wx: "w x \<le> length (S x)" using Cons.prems by simp
  show ?case
  proof (cases xs)
    case Nil
    then show ?thesis using wx by simp
  next
    case (Cons y ys)
    have "1 \<le> length sep" using assms(2) by (cases sep) simp_all
    then have "length (join sep (map S (x # xs))) = length (S x) + length sep + length (join sep (map S xs))"
      using Cons by simp
    then show ?thesis
      using ih wx \<open>1 \<le> length sep\<close> by simp
  qed
qed

lemma weight_le_length: "weight v \<le> length (stringify_value cod ind v)"
proof (induction v arbitrary: ind)
  case (JArray xs)
  show ?case
  proof (cases "xs = []")
    case True
    then show ?thesis by simp
  next
    case False
    have "sum_list (map (\<lambda>x. Suc (weight x)) xs) \<le>
        Suc (length (join (44 # newline_indent (ind + 2)) (map (stringify_value cod (ind + 2)) xs)))"
      using JArray.IH by (intro weight_join) simp_all
    then show ?thesis
      using False by (simp add: newline_indent_def)
  qed
next
  case (JObject kvs)
  show ?case
  proof (cases "kvs = []")
    case True
    then show ?thesis by simp
  next
    case False
    have "\<forall>kv \<in> set kvs. weight (snd kv) \<le>
        length (quote (fst kv) @ [58, 32] @ stringify_value cod (ind + 2) (snd kv))"
    proof
      fix kv assume mem: "kv \<in> set kvs"
      have "snd kv \<in> Basic_BNFs.snds kv" by (cases kv) simp
      then have "weight (snd kv) \<le> length (stringify_value cod (ind + 2) (snd kv))"
        using JObject.IH [OF mem] by simp
      then show "weight (snd kv) \<le>
          length (quote (fst kv) @ [58, 32] @ stringify_value cod (ind + 2) (snd kv))"
        by simp
    qed
    then have "sum_list (map (\<lambda>kv. Suc (weight (snd kv))) kvs) \<le>
        Suc (length (join (44 # newline_indent (ind + 2))
          (map (\<lambda>kv. quote (fst kv) @ [58, 32] @ stringify_value cod (ind + 2) (snd kv)) kvs)))"
      by (intro weight_join) simp_all
    then show ?thesis
      using False by (simp add: newline_indent_def)
  qed
qed simp_all

lemma well_ordered_define_property:
  assumes "list_all (\<lambda>kv. well_ordered (snd kv)) acc" and "well_ordered v"
  shows "list_all (\<lambda>kv. well_ordered (snd kv)) (define_property k v acc)"
proof -
  have "well_ordered y" if "y \<in> snd ` set (define_property k v acc)" for y
  proof -
    have "y \<in> insert v (snd ` set acc)"
      using values_define_property [of k v acc] that by blast
    then show ?thesis
      using assms by (auto simp: list_all_iff)
  qed
  then show ?thesis by (simp add: list_all_iff)
qed

lemma parse_members_Suc_cases:
  assumes "parse_members cod (Suc fuel) acc s = Some (kvs, r)"
  obtains k v r0 r1 r2 r3 r4 d where
    "s = 34 # r0" "read_string r0 = Some (k, r1)" "skip_ws r1 = 58 # r2"
    "parse_value cod fuel (skip_ws r2) = Some (v, r3)" "skip_ws r3 = d # r4"
    "(d = 44 \<and> parse_members cod fuel (define_property k v acc) (skip_ws r4) = Some (kvs, r)) \<or>
     (d = 125 \<and> kvs = define_property k v acc \<and> r = r4)"
proof -
  obtain q r0 where s: "s = q # r0"
    using assms by (cases s) simp_all
  have q: "q = 34"
    using assms s by (simp split: if_splits)
  obtain k r1 where key: "read_string r0 = Some (k, r1)"
    using assms s q by (cases "read_string r0") (auto simp del: read_string.simps)
  obtain c r2 where colon: "skip_ws r1 = c # r2"
    using assms s q key by (cases "skip_ws r1") (simp_all del: read_string.simps)
  have c: "c = 58"
    using assms s q key colon by (simp split: if_splits del: read_string.simps)
  obtain v r3 where val: "parse_value cod fuel (skip_ws r2) = Some (v, r3)"
    using assms s q key colon c
    by (cases "parse_value cod fuel (skip_ws r2)") (auto simp del: read_string.simps)
  obtain d r4 where follow: "skip_ws r3 = d # r4"
    using assms s q key colon c val by (cases "skip_ws r3") (simp_all del: read_string.simps)
  have "(d = 44 \<and> parse_members cod fuel (define_property k v acc) (skip_ws r4) = Some (kvs, r)) \<or>
     (d = 125 \<and> kvs = define_property k v acc \<and> r = r4)"
    using assms s q key colon c val follow
    by (simp split: if_splits del: read_string.simps)
  then show ?thesis
    using that s q key colon c val follow by blast
qed

lemma parse_well_ordered:
  "(\<forall>s v r. parse_value cod fuel s = Some (v, r) \<longrightarrow> well_ordered v) \<and>
   (\<forall>acc s xs r. list_all well_ordered acc \<longrightarrow> parse_elements cod fuel acc s = Some (xs, r)
       \<longrightarrow> list_all well_ordered xs) \<and>
   (\<forall>acc s kvs r. canonical acc \<longrightarrow> list_all (\<lambda>kv. well_ordered (snd kv)) acc \<longrightarrow>
       parse_members cod fuel acc s = Some (kvs, r) \<longrightarrow>
       canonical kvs \<and> list_all (\<lambda>kv. well_ordered (snd kv)) kvs)"
proof (induction fuel)
  case 0
  then show ?case by simp
next
  case (Suc fuel)
  have ih_v: "\<And>s v r. parse_value cod fuel s = Some (v, r) \<Longrightarrow> well_ordered v"
    and ih_e: "\<And>acc s xs r. list_all well_ordered acc \<Longrightarrow>
        parse_elements cod fuel acc s = Some (xs, r) \<Longrightarrow> list_all well_ordered xs"
    and ih_m: "\<And>acc s kvs r. canonical acc \<Longrightarrow> list_all (\<lambda>kv. well_ordered (snd kv)) acc \<Longrightarrow>
        parse_members cod fuel acc s = Some (kvs, r) \<Longrightarrow>
        canonical kvs \<and> list_all (\<lambda>kv. well_ordered (snd kv)) kvs"
    using Suc by blast+
  have empty: "canonical ([] :: (jstr \<times> 'a json) list)"
    by (simp add: canonical_def)
  have v: "well_ordered v" if "parse_value cod (Suc fuel) s = Some (v, r)" for s v r
    using that ih_e [of "[]"] ih_m [of "[]"] empty
    by (auto split: list.splits option.splits if_splits prod.splits)
  have e: "list_all well_ordered xs"
    if a1: "list_all well_ordered acc" and a2: "parse_elements cod (Suc fuel) acc s = Some (xs, r)"
    for acc s xs r
  proof -
    obtain v r1 where pv: "parse_value cod fuel s = Some (v, r1)"
      using a2 by (auto split: option.splits)
    have "well_ordered v" using ih_v pv .
    then have grown: "list_all well_ordered (acc @ [v])"
      using a1 by simp
    show ?thesis
      using a2 pv grown ih_e [OF grown]
      by (auto split: list.splits if_splits)
  qed
  have m: "canonical kvs \<and> list_all (\<lambda>kv. well_ordered (snd kv)) kvs"
    if b1: "canonical acc" and b2: "list_all (\<lambda>kv. well_ordered (snd kv)) acc"
      and b3: "parse_members cod (Suc fuel) acc s = Some (kvs, r)"
    for acc s kvs r
  proof -
    obtain k v r2 r3 r4 d where
      val: "parse_value cod fuel (skip_ws r2) = Some (v, r3)"
      and alt: "(d = 44 \<and> parse_members cod fuel (define_property k v acc) (skip_ws r4) = Some (kvs, r)) \<or>
         (d = 125 \<and> kvs = define_property k v acc \<and> r = r4)"
      using parse_members_Suc_cases [OF b3] by metis
    have "well_ordered v" using ih_v val .
    then have wo: "list_all (\<lambda>kv. well_ordered (snd kv)) (define_property k v acc)"
      using well_ordered_define_property [OF b2] by simp
    have can: "canonical (define_property k v acc)"
      using canonical_define_property [OF b1] .
    show ?thesis
      using alt ih_m [OF can wo] can wo by blast
  qed
  show ?case
    using v e m by blast
qed

subsection \<open>The export of the modal\<close>

lemma JSON_parse_well_ordered: "JSON_parse cod s = Some v \<Longrightarrow> well_ordered v"
proof -
  assume "JSON_parse cod s = Some v"
  then obtain r where "parse_value cod (Suc (length s)) (skip_ws s) = Some (v, r)"
    by (auto simp: JSON_parse_def split: option.splits if_splits simp del: parse_value.simps)
  then show ?thesis
    using parse_well_ordered [of cod "Suc (length s)"] by blast
qed

lemma JSON_parse_stringify:
  assumes "well_ordered v" and "numbers_survive cod v"
  shows "JSON_parse cod (JSON_stringify cod v) = Some v"
proof -
  let ?t = "stringify_value cod 0 v"
  have "weight v < Suc (length ?t)"
    using weight_le_length [of v cod 0] by simp
  then have "parse_value cod (Suc (length ?t)) (?t @ []) = Some (v, [])"
    using assms by (intro parse_stringify_value) (simp_all add: follow_ok_def)
  moreover have "skip_ws ?t = ?t"
    using first_ok_stringify [OF assms(2)] by (rule skip_ws_first_ok)
  ultimately show ?thesis
    by (simp add: JSON_parse_def JSON_stringify_def skip_ws_def del: parse_value.simps)
qed

lemmas eval_defs = units_def cons_unit_def skip_ws_def is_ws_def starts_def is_digit_def
  is_number_char_def exact_numbers_def read_exact_def read_exponent_def classify_def Let_def
  define_property_def is_index_def simple_escape_def

lemma ten_more: "(n::nat) + 10 = Suc (Suc (Suc (Suc (Suc (Suc (Suc (Suc (Suc (Suc n)))))))))"
  by simp

lemma overflow_parsed: "JSON_parse exact_numbers (units overflow_payload) = Some overflow_commands"
proof -
  have "Suc (length (units overflow_payload)) = 27 + 10"
    by (simp add: units_def overflow_payload_def)
  then show ?thesis
    unfolding JSON_parse_def ten_more
    by (simp add: overflow_payload_def overflow_commands_def eval_defs)
qed

lemma wait_parsed: "JSON_parse exact_numbers (units wait_payload) = Some wait_commands"
proof -
  have "Suc (length (units wait_payload)) = 82 + 10"
    by (simp add: units_def wait_payload_def)
  then show ?thesis
    unfolding JSON_parse_def ten_more
    by (simp add: wait_payload_def wait_commands_def eval_defs)
qed

lemma two_survives: "numbers_survive exact_numbers (JNumber (Finite 2))"
  by (simp add: exact_numbers_def show_exact_def digits_of.simps number_token_def
      is_number_char_def is_digit_def read_exact_def read_exponent_def classify_def)

lemma JSON_parse_empty: "JSON_parse cod [] = None"
  by (simp add: JSON_parse_def skip_ws_def)

text \<open>
  Claim C8, as the code has it.  When the stored \<open>selenium_script_json\<close> of a step parses,
  the modal holds the parsed commands and no error, and the text that \<open>handleExportJson\<close>
  writes with \<open>JSON.stringify\<close> is read back by \<open>JSON.parse\<close> as the same value, element
  for element and member for member in the same order, provided that every number in it
  is finite and is read back from its printed form.
\<close>

theorem export_reads_back:
  assumes "selenium_script_json st = Some raw"
    and "JSON_parse cod (units raw) = Some v"
    and "numbers_survive cod v"
  shows "jsonCommands (ViewScriptModal cod st) = v \<and>
    jsonError (ViewScriptModal cod st) = None \<and>
    JSON_parse cod (handleExportJson cod (ViewScriptModal cod st)) = Some v"
proof -
  have "raw \<noteq> []"
    using assms(2) JSON_parse_empty [of cod] by (auto simp: units_def)
  then have m: "ViewScriptModal cod st = \<lparr>jsonCommands = v, jsonError = None\<rparr>"
    using assms(1,2) by (simp add: ViewScriptModal_def truthy_def)
  have "well_ordered v"
    using assms(2) by (rule JSON_parse_well_ordered)
  then have "JSON_parse cod (JSON_stringify cod v) = Some v"
    using assms(3) by (rule JSON_parse_stringify)
  then show ?thesis
    by (simp add: m handleExportJson_def)
qed

text \<open>
  A navigate command and a wait of two seconds: the exported text reads back as the two
  commands the modal shows.
\<close>

theorem export_reads_back_witness:
  "jsonCommands (ViewScriptModal exact_numbers (stored_step wait_payload)) = wait_commands \<and>
   jsonError (ViewScriptModal exact_numbers (stored_step wait_payload)) = None \<and>
   JSON_parse exact_numbers
     (handleExportJson exact_numbers (ViewScriptModal exact_numbers (stored_step wait_payload))) =
     Some wait_commands"
proof -
  have "selenium_script_json (stored_step wait_payload) = Some wait_payload"
    by (simp add: stored_step_def)
  moreover have "numbers_survive exact_numbers wait_commands"
    using two_survives by (simp add: wait_commands_def)
  ultimately show ?thesis
    using wait_parsed by (intro export_reads_back)
qed

text \<open>
  The claim as written covers every command array that parsing can give.  The payload
  \<open>[{"action": "wait", "value": 1e309}]\<close> is JSON and parses, to a wait whose value is
  \<open>Infinity\<close>; \<open>JSON.stringify\<close> writes that number as \<open>null\<close>, and re-reading gives a
  command whose value is \<open>null\<close>, not the one written.
\<close>

theorem export_overflow_counterexample:
  "jsonCommands (ViewScriptModal exact_numbers (stored_step overflow_payload)) =
     overflow_commands \<and>
   jsonError (ViewScriptModal exact_numbers (stored_step overflow_payload)) = None \<and>
   JSON_parse exact_numbers
     (handleExportJson exact_numbers
        (ViewScriptModal exact_numbers (stored_step overflow_payload))) =
     Some nulled_commands \<and>
   nulled_commands \<noteq> overflow_commands"
proof -
  have "truthy overflow_payload"
    by (simp add: truthy_def overflow_payload_def)
  then have m: "ViewScriptModal exact_numbers (stored_step overflow_payload) =
      \<lparr>jsonCommands = overflow_commands, jsonError = None\<rparr>"
    by (simp add: ViewScriptModal_def stored_step_def overflow_parsed)
  have same: "JSON_stringify exact_numbers overflow_commands =
      JSON_stringify exact_numbers nulled_commands"
    by (simp add: JSON_stringify_def overflow_commands_def nulled_commands_def)
  have "well_ordered nulled_commands"
    by (simp add: nulled_commands_def canonical_def precedes_def is_index_def units_def
        is_digit_def)
  moreover have "numbers_survive exact_numbers nulled_commands"
    by (simp add: nulled_commands_def)
  ultimately have "JSON_parse exact_numbers (JSON_stringify exact_numbers nulled_commands) =
      Some nulled_commands"
    by (rule JSON_parse_stringify)
  moreover have "nulled_commands \<noteq> overflow_commands"
    by (simp add: nulled_commands_def overflow_commands_def)
  ultimately show ?thesis
    using same by (simp add: m handleExportJson_def)
qed

end
